theory Spec2Isabelle
  imports Complex_Main "HOL-Library.Multiset" "HOL-Library.Log_Nat"
begin

section \<open>Arrays, errors and the external collaborators\<close>

text \<open>
  The development follows \<^verbatim>\<open>quantecon/markov/approximation.py\<close>. Floating-point numbers are
  read as real numbers: rounding, overflow and underflow are not part of the model, except
  in the last section of the definitions, where the Rouwenhorst matrix is computed on doubles.
  Scalar arguments are Python floats, as the docstrings type them. A two-dimensional array
  is the list of its rows.
\<close>

type_synonym matrix = "real list list"

datatype error =
    ZeroDivisionError    \<comment> \<open>division of Python floats (or inside compiled code) by zero\<close>
  | MathDomainError      \<comment> \<open>the ValueError of \<^verbatim>\<open>math.sqrt\<close> at a negative argument\<close>
  | StatesValueError     \<comment> \<open>the ValueError raised by \<^verbatim>\<open>row_build_mat\<close>\<close>
  | SamplesValueError    \<comment> \<open>the ValueError of \<^verbatim>\<open>np.linspace\<close> at a negative sample count\<close>
  | NoArraysValueError   \<comment> \<open>the ValueError of \<^verbatim>\<open>np.stack\<close> at an empty sequence of arrays\<close>
  | FloatShapeTypeError  \<comment> \<open>the TypeError of \<^verbatim>\<open>np.zeros\<close> at a shape that holds a float\<close>
  | NegativeDimValueError \<comment> \<open>the ValueError of \<^verbatim>\<open>np.zeros\<close> at a negative dimension\<close>
  | EmptyArgminValueError \<comment> \<open>the ValueError of \<^verbatim>\<open>np.argmin\<close> at an empty array\<close>
  | IndexError           \<comment> \<open>an index beyond the end of a sequence\<close>
  | SolverError          \<comment> \<open>whatever the Lyapunov solver raises\<close>

text \<open>
  numpy does not raise where an operation leaves the real numbers (the square root of a
  negative number, a division by zero): it warns and goes on with nan or an infinity.
  \<open>NonFinite\<close> marks a call in which such a value arose before anything was raised. What the
  call computes from there on is not a computation on real numbers, and the model stops:
  \<open>NonFinite\<close> says neither what the call returns nor whether a later step, such as the
  constructor of the chain, raises.
\<close>

datatype 'a outcome = Raises error | NonFinite | Returns 'a

text \<open>
  Modelled from the spec: the Markov chain container (\<^verbatim>\<open>quantecon/markov/core.py\<close>) is not
  part of the sources at hand. It "accepts a transition matrix and a state-space
  array/sequence and exposes no further obligations", so it is the pair of both.
\<close>

record MarkovChain =
  P :: matrix
  state_values :: "real list"

definition zeros :: "nat \<Rightarrow> nat \<Rightarrow> matrix" where
  "zeros r c = replicate r (replicate c 0)"

definition smult :: "real \<Rightarrow> matrix \<Rightarrow> matrix" where
  "smult a M = map (map (\<lambda>v. a * v)) M"

definition madd :: "matrix \<Rightarrow> matrix \<Rightarrow> matrix" where
  "madd M N = map2 (map2 (+)) M N"

text \<open>
  \<^verbatim>\<open>Z[r0:r0+h, c0:c0+w] = B\<close> for a block \<open>B\<close> of shape \<open>h \<times> w\<close>; at every use below the
  slice has the shape of the block.
\<close>

definition assign_block :: "matrix \<Rightarrow> nat \<Rightarrow> nat \<Rightarrow> matrix \<Rightarrow> matrix" where
  "assign_block Z r0 c0 B =
     map (\<lambda>i. map (\<lambda>j. if r0 \<le> i \<and> i < r0 + length B \<and>
                            c0 \<le> j \<and> j < c0 + length (B ! (i - r0))
                         then B ! (i - r0) ! (j - c0) else Z ! i ! j)
                 [0..<length (Z ! i)])
         [0..<length Z]"

text \<open>\<^verbatim>\<open>M[a:b, :] = M[a:b, :] / 2\<close>\<close>

definition halve_rows :: "matrix \<Rightarrow> nat \<Rightarrow> nat \<Rightarrow> matrix" where
  "halve_rows M a b =
     map (\<lambda>i. if a \<le> i \<and> i < b then map (\<lambda>v. v / 2) (M ! i) else M ! i) [0..<length M]"

text \<open>
  \<^verbatim>\<open>np.linspace(start, stop, num)\<close>: a negative count is refused, one sample is the start
  alone, and otherwise the samples are \<open>start + i * step\<close>.
\<close>

definition linspace :: "real \<Rightarrow> real \<Rightarrow> int \<Rightarrow> error + real list" where
  "linspace start stop num =
     (if num < 0 then Inl SamplesValueError
      else if num = 1 then Inr [start]
      else Inr (map (\<lambda>i. start + real i * ((stop - start) / real_of_int (num - 1)))
                    [0..<nat num]))"

section \<open>Rouwenhorst\<close>

function row_build_mat :: "int \<Rightarrow> real \<Rightarrow> real \<Rightarrow> error + matrix" where
  "row_build_mat n p q =
     (if n = 2 then Inr [[p, 1 - p], [1 - q, q]]
      else if n > 2 then
        (case row_build_mat (n - 1) p q of
           Inl e \<Rightarrow> Inl e
         | Inr new_mat \<Rightarrow>
             let k = nat n;
                 p1 = assign_block (zeros k k) 0 0 (smult p new_mat);
                 p2 = assign_block (zeros k k) 0 1 (smult (1 - p) new_mat);
                 p3 = assign_block (zeros k k) 1 0 (smult (1 - q) new_mat);
                 p4 = assign_block (zeros k k) 1 1 (smult q new_mat);
                 theta = madd (madd (madd p1 p2) p3) p4
             in Inr (halve_rows theta 1 (k - 1)))
      else Inl StatesValueError)"
  by pat_completeness auto
termination
  by (relation "measure (\<lambda>(n, p, q). nat n)") auto

declare row_build_mat.simps [simp del]

text \<open>
  The arguments are Python floats, so the quotient under the square root raises
  ZeroDivisionError when \<open>rho\<^sup>2 = 1\<close>, and \<^verbatim>\<open>math.sqrt\<close> raises at a negative quotient.
  (With a numpy scalar for \<open>rho\<close> the division would be numpy's, which only warns.) On
  doubles a square beyond the largest double raises OverflowError, and a quotient that
  underflows to \<open>-0.0\<close> passes \<^verbatim>\<open>math.sqrt\<close>; neither is part of the model, so statements about
  these errors bound the sizes of \<open>rho\<close> and \<open>sigma\<close>.
  The grid is built before the matrix, so a negative \<open>n\<close> fails in \<^verbatim>\<open>np.linspace\<close>; every
  other \<open>n < 2\<close> fails in \<^verbatim>\<open>row_build_mat\<close>, so that \<open>psi\<close> is used for \<open>n \<ge> 2\<close> only. The
  depth of the recursion is not bounded in the model.
\<close>

definition rouwenhorst :: "int \<Rightarrow> real \<Rightarrow> real \<Rightarrow> real \<Rightarrow> error + MarkovChain" where
  "rouwenhorst n ybar sigma rho =
     (if 1 - rho\<^sup>2 = 0 then Inl ZeroDivisionError
      else if sigma\<^sup>2 / (1 - rho\<^sup>2) < 0 then Inl MathDomainError
      else
        let y_sd = sqrt (sigma\<^sup>2 / (1 - rho\<^sup>2));
            p = (1 + rho) / 2;
            q = p;
            psi = y_sd * sqrt (real_of_int (n - 1));
            ubar = psi;
            lbar = - ubar
        in case linspace lbar ubar n of
             Inl e \<Rightarrow> Inl e
           | Inr bar \<Rightarrow>
               (case row_build_mat n p q of
                  Inl e \<Rightarrow> Inl e
                | Inr theta \<Rightarrow>
                    Inr \<lparr>P = theta, state_values = map (\<lambda>v. v + ybar / (1 - rho)) bar\<rparr>))"

section \<open>Tauchen\<close>

text \<open>
  \<^verbatim>\<open>math.erfc\<close> belongs to the C library, so the complementary error function is a parameter
  \<open>erfc\<close> of everything below.
\<close>

definition std_norm_cdf :: "(real \<Rightarrow> real) \<Rightarrow> real \<Rightarrow> real" where
  "std_norm_cdf erfc x = 0.5 * erfc (- x / sqrt 2)"

text \<open>
  The body of the loop over \<open>i\<close> in \<^verbatim>\<open>_fill_tauchen\<close>, on row \<open>i\<close> of \<open>P\<close>: the first column,
  then the last, then \<open>j = 1, \<dots>, n - 2\<close>.
\<close>

definition fill_tauchen_row ::
  "(real \<Rightarrow> real) \<Rightarrow> real list \<Rightarrow> nat \<Rightarrow> real \<Rightarrow> real \<Rightarrow> real \<Rightarrow> nat \<Rightarrow> real list \<Rightarrow> real list" where
  "fill_tauchen_row erfc x n rho sigma half_step i row =
     (let row0 = row[0 := std_norm_cdf erfc ((x ! 0 - rho * x ! i + half_step) / sigma)];
          row1 = row0[n - 1 :=
                   1 - std_norm_cdf erfc ((x ! (n - 1) - rho * x ! i - half_step) / sigma)]
      in fold (\<lambda>j r. let z = x ! j - rho * x ! i
                      in r[j := std_norm_cdf erfc ((z + half_step) / sigma) -
                                std_norm_cdf erfc ((z - half_step) / sigma)])
              [1..<n - 1] row1)"

text \<open>
  \<^verbatim>\<open>_fill_tauchen\<close> is compiled with numba's default error model, where a division by zero
  raises ZeroDivisionError: this happens in the first iteration when \<open>sigma = 0\<close>. It is
  called with \<open>x\<close> of length \<open>n\<close> and \<open>P\<close> of shape \<open>n \<times> n\<close>.
\<close>

definition fill_tauchen ::
  "(real \<Rightarrow> real) \<Rightarrow> real list \<Rightarrow> matrix \<Rightarrow> nat \<Rightarrow> real \<Rightarrow> real \<Rightarrow> real \<Rightarrow> error + matrix" where
  "fill_tauchen erfc x P0 n rho sigma half_step =
     (if 0 < n \<and> sigma = 0 then Inl ZeroDivisionError
      else Inr (fold (\<lambda>i M. M[i := fill_tauchen_row erfc x n rho sigma half_step i (M ! i)])
                     [0..<n] P0))"

definition tauchen_std_y :: "real \<Rightarrow> real \<Rightarrow> real" where
  "tauchen_std_y rho sigma_u = sqrt (sigma_u\<^sup>2 / (1 - rho\<^sup>2))"

definition tauchen_x :: "real \<Rightarrow> real \<Rightarrow> real \<Rightarrow> int \<Rightarrow> error + real list" where
  "tauchen_x rho sigma_u m n =
     (let x_max = m * tauchen_std_y rho sigma_u; x_min = - x_max
      in linspace x_min x_max n)"

definition tauchen_half_step :: "real \<Rightarrow> real \<Rightarrow> real \<Rightarrow> int \<Rightarrow> real" where
  "tauchen_half_step rho sigma_u m n =
     (let x_max = m * tauchen_std_y rho sigma_u; x_min = - x_max;
          step = (x_max - x_min) / real_of_int (n - 1)
      in 0.5 * step)"

text \<open>
  \<open>rho\<close> and \<open>sigma_u\<close> are Python floats, so \<open>rho\<^sup>2 = 1\<close> raises ZeroDivisionError. A
  negative quotient (\<open>rho\<^sup>2 > 1\<close> and \<open>sigma_u \<noteq> 0\<close>) makes \<^verbatim>\<open>np.sqrt\<close> return nan: the grid
  and the matrix are computed from nan, and the lines of \<^verbatim>\<open>tauchen\<close> raise nothing unless
  \<open>n < 0\<close>; the model stops at \<open>NonFinite\<close>, and what the constructor of the chain does with
  such a matrix is not part of it. With \<open>n = 1\<close> the step is a numpy division by zero (an
  infinity or nan): nothing is raised there, the fill divides by \<open>sigma_u\<close> afterwards, and
  the model stops at \<open>NonFinite\<close> as well. \<^verbatim>\<open>np.empty\<close> leaves the content of \<open>P\<close>
  unspecified; the model starts from zeros, and the fill overwrites every cell.
\<close>

definition tauchen ::
  "(real \<Rightarrow> real) \<Rightarrow> real \<Rightarrow> real \<Rightarrow> real \<Rightarrow> real \<Rightarrow> int \<Rightarrow> MarkovChain outcome" where
  "tauchen erfc rho sigma_u b m n =
     (if 1 - rho\<^sup>2 = 0 then Raises ZeroDivisionError
      else case tauchen_x rho sigma_u m n of
        Inl e \<Rightarrow> Raises e
      | Inr x \<Rightarrow>
          if sigma_u\<^sup>2 / (1 - rho\<^sup>2) < 0 then NonFinite
          else if n = 1 then (if sigma_u = 0 then Raises ZeroDivisionError else NonFinite)
          else
            let half_step = tauchen_half_step rho sigma_u m n;
                P0 = zeros (nat n) (nat n)
            in (case fill_tauchen erfc x P0 (nat n) rho sigma_u half_step of
                  Inl e \<Rightarrow> Raises e
                | Inr P' \<Rightarrow>
                    let mu = b / (1 - rho)
                    in Returns \<lparr>P = P', state_values = map (\<lambda>v. v + mu) x\<rparr>))"

section \<open>Cartesian product\<close>

text \<open>
  Row-major order: \<^verbatim>\<open>np.meshgrid(*arrays, indexing='ij')\<close> stacked on the last axis and reshaped
  to \<open>m\<close> columns lists the combinations in C order, the first grid being the outermost loop
  and the last grid varying fastest. A grid without points leaves no row.
\<close>

fun row_major_rows :: "real list list \<Rightarrow> real list list" where
  "row_major_rows [] = [[]]"
| "row_major_rows (v # vs) = concat (map (\<lambda>a. map (\<lambda>r. a # r) (row_major_rows vs)) v)"

text \<open>
  Column-major order, column \<open>i\<close> of \<open>S\<close>. \<^verbatim>\<open>np.tile(S0, [r, 1])\<close> stacks \<open>r\<close> copies of \<open>S0\<close> as
  rows, \<^verbatim>\<open>np.ravel\<close> joins the rows, \<^verbatim>\<open>np.sort\<close> sorts in increasing order.
\<close>

definition col_major_column :: "real list list \<Rightarrow> nat \<Rightarrow> real list" where
  "col_major_column V i =
     (let gs = map length V
      in if i = 0 then
           (let S0 = V ! i
            in concat (replicate (prod_list (drop (i + 1) gs)) S0))
         else
           (let S0 = sort (concat (replicate (prod_list (take i gs)) (V ! i)))
            in concat (replicate (prod_list (drop (i + 1) gs)) S0)))"

text \<open>The array \<open>S\<close> of shape \<open>n \<times> m\<close> whose columns are the ones above.\<close>

definition col_major_rows :: "real list list \<Rightarrow> real list list" where
  "col_major_rows V =
     (let m = length V; gs = map length V; n = prod_list gs;
          cols = map (col_major_column V) [0..<m]
      in map (\<lambda>k. map (\<lambda>c. c ! k) cols) [0..<n])"

text \<open>
  Without any grid, \<^verbatim>\<open>np.stack\<close> refuses the empty list in row-major mode; in column-major
  mode \<^verbatim>\<open>np.prod([])\<close> is the float \<open>1.0\<close>, which \<^verbatim>\<open>np.zeros\<close> refuses as a dimension.
\<close>

definition cartesian_product :: "real list list \<Rightarrow> bool \<Rightarrow> error + real list list" where
  "cartesian_product arrays row_major =
     (let m = length arrays
      in if row_major then
           (if m = 0 then Inl NoArraysValueError else Inr (row_major_rows arrays))
         else
           (if m = 0 then Inl FloatShapeTypeError else Inr (col_major_rows arrays)))"

section \<open>The VAR discretizer\<close>

text \<open>
  The collaborators of \<^verbatim>\<open>discrete_var\<close> that are not part of the file: the Lyapunov solver
  \<^verbatim>\<open>qme.solve_discrete_lyapunov\<close>, the matrix square root \<^verbatim>\<open>sp.linalg.sqrtm\<close>, and the random
  generator that compiled code shares within a process: \<^verbatim>\<open>np.random.seed\<close> sets its state
  \<open>'g\<close>, and each standard normal draw of \<^verbatim>\<open>np.random.randn\<close> reads and advances it.
\<close>

record 'g collaborators =
  solve_discrete_lyapunov :: "matrix \<Rightarrow> matrix \<Rightarrow> error + matrix"
  sqrtm :: "matrix \<Rightarrow> matrix"
  rng_seed :: "int \<Rightarrow> 'g"
  rng_randn :: "'g \<Rightarrow> real \<times> 'g"

text \<open>A float computed by a numpy division, which yields nan or an infinity at a zero divisor.\<close>

datatype npfloat = Fin real | NaN | PosInf | NegInf

definition np_divide :: "real \<Rightarrow> real \<Rightarrow> npfloat" where
  "np_divide c s =
     (if s \<noteq> 0 then Fin (c / s)
      else if c = 0 then NaN
      else if 0 < c then PosInf else NegInf)"

text \<open>
  \<^verbatim>\<open>np.argmin\<close> scans from the left and keeps the first index of the smallest value: a later
  entry replaces the best one only if it is strictly smaller.
\<close>

fun argmin_scan :: "nat \<Rightarrow> real \<Rightarrow> nat \<Rightarrow> real list \<Rightarrow> nat" where
  "argmin_scan best_i best_v i [] = best_i"
| "argmin_scan best_i best_v i (v # vs) =
     (if v < best_v then argmin_scan i v (Suc i) vs else argmin_scan best_i best_v (Suc i) vs)"

definition argmin :: "real list \<Rightarrow> error + nat" where
  "argmin d = (case d of [] \<Rightarrow> Inl EmptyArgminValueError | v # vs \<Rightarrow> Inr (argmin_scan 0 v 1 vs))"

text \<open>\<^verbatim>\<open>np.sum((S - xx)**2, axis=1)\<close>, and the index of the row of \<open>S\<close> closest to \<open>x\<close>.\<close>

definition sq_dists :: "matrix \<Rightarrow> real list \<Rightarrow> real list" where
  "sq_dists S x = map (\<lambda>row. sum_list (map2 (\<lambda>s v. (s - v)\<^sup>2) row x)) S"

definition nearest :: "matrix \<Rightarrow> real list \<Rightarrow> error + nat" where
  "nearest S x = argmin (sq_dists S x)"

text \<open>Products of a matrix with a column vector, and the sum of two column vectors.\<close>

definition matvec :: "matrix \<Rightarrow> real list \<Rightarrow> real list" where
  "matvec M v = map (\<lambda>row. sum_list (map2 (*) row v)) M"

definition vadd :: "real list \<Rightarrow> real list \<Rightarrow> real list" where
  "vadd u v = map2 (+) u v"

text \<open>\<^verbatim>\<open>np.random.randn(m, 1)\<close>: \<open>m\<close> successive draws.\<close>

fun randn_vec :: "('g \<Rightarrow> real \<times> 'g) \<Rightarrow> nat \<Rightarrow> 'g \<Rightarrow> real list \<times> 'g" where
  "randn_vec randn 0 g = ([], g)"
| "randn_vec randn (Suc k) g =
     (let (z, g1) = randn g; (zs, g2) = randn_vec randn k g1 in (z # zs, g2))"

text \<open>
  The variables of the loop of \<^verbatim>\<open>_run_sim\<close>: the continuous state, the index of its nearest
  grid point, the counts, the trace, and the state of the generator.
\<close>

record 'g sim_state =
  st_x0 :: "real list"
  st_ind_i :: nat
  st_Pi :: matrix
  st_Xvec :: matrix
  st_gen :: 'g

text \<open>
  One iteration, at loop index \<open>t\<close>. The loop is entered only after \<^verbatim>\<open>np.argmin\<close> has succeeded
  on the rows of \<open>S\<close>, so \<open>S\<close> has a row and the search inside the loop cannot fail; its
  error branch keeps the index. \<^verbatim>\<open>Xvec[:, t - burn_in] = x.T\<close> writes entry \<open>k\<close> of \<open>x\<close> to row
  \<open>k\<close> of the trace.
\<close>

definition sim_step ::
  "('g \<Rightarrow> real \<times> 'g) \<Rightarrow> matrix \<Rightarrow> matrix \<Rightarrow> matrix \<Rightarrow> int \<Rightarrow> nat \<Rightarrow> 'g sim_state \<Rightarrow> 'g sim_state" where
  "sim_step randn A C S burn_in t st =
     (let m = length A;
          (z, g1) = randn_vec randn m (st_gen st);
          drw = matvec C z;
          x = vadd (matvec A (st_x0 st)) drw;
          ind_j = (case nearest S x of Inl e \<Rightarrow> st_ind_i st | Inr j \<Rightarrow> j);
          counted = (int t > burn_in);
          ind_i = st_ind_i st;
          Pi' = (if counted
                 then (st_Pi st)[ind_i := (st_Pi st ! ind_i)[ind_j := st_Pi st ! ind_i ! ind_j + 1]]
                 else st_Pi st);
          Xvec' = (if counted
                   then map2 (\<lambda>row v. row[nat (int t - burn_in) := v]) (st_Xvec st) x
                   else st_Xvec st)
      in \<lparr>st_x0 = x, st_ind_i = ind_j, st_Pi = Pi', st_Xvec = Xvec', st_gen = g1\<rparr>)"

text \<open>
  \<^verbatim>\<open>_run_sim\<close>. The seed is set first; then the grid point nearest to the origin is looked up,
  which fails when \<open>S\<close> has no row; then the loop runs for \<open>sim_length + burn_in\<close> steps. The
  result carries the state in which the generator is left.
\<close>

definition run_sim ::
  "'g collaborators \<Rightarrow> matrix \<Rightarrow> matrix \<Rightarrow> matrix \<Rightarrow> matrix \<Rightarrow> matrix \<Rightarrow> int \<Rightarrow> int \<Rightarrow> int \<Rightarrow>
     (error + matrix \<times> matrix) \<times> 'g" where
  "run_sim env A C Pi0 Xvec0 S sim_length burn_in seed =
     (let m = length A;
          g0 = rng_seed env seed;
          x0 = replicate m 0;
          d = map (\<lambda>row. sum_list (map (\<lambda>s. s\<^sup>2) row)) S
      in case argmin d of
           Inl e \<Rightarrow> (Inl e, g0)
         | Inr ind_i \<Rightarrow>
             let st = fold (sim_step (rng_randn env) A C S burn_in)
                           [0..<nat (sim_length + burn_in)]
                           \<lparr>st_x0 = x0, st_ind_i = ind_i, st_Pi = Pi0, st_Xvec = Xvec0, st_gen = g0\<rparr>
             in (Inr (st_Pi st, st_Xvec st), st_gen st))"

text \<open>The loop that builds one grid per dimension; an index beyond \<open>upper_bounds\<close> or
  \<open>grid_sizes\<close> raises IndexError.\<close>

fun build_grids :: "real list \<Rightarrow> int list \<Rightarrow> nat list \<Rightarrow> error + real list list" where
  "build_grids upper_bounds grid_sizes [] = Inr []"
| "build_grids upper_bounds grid_sizes (i # rest) =
     (if i < length upper_bounds \<and> i < length grid_sizes then
        (case linspace (- (upper_bounds ! i)) (upper_bounds ! i) (grid_sizes ! i) of
           Inl e \<Rightarrow> Inl e
         | Inr b \<Rightarrow>
             (case build_grids upper_bounds grid_sizes rest of
                Inl e \<Rightarrow> Inl e
              | Inr V \<Rightarrow> Inr (b # V)))
      else Inl IndexError)"

text \<open>\<^verbatim>\<open>np.diagonal\<close> and \<^verbatim>\<open>np.sum(_, axis=0)\<close> of a square array.\<close>

definition np_diagonal :: "matrix \<Rightarrow> real list" where
  "np_diagonal M = map (\<lambda>i. M ! i ! i) [0..<length M]"

definition column_sums :: "matrix \<Rightarrow> real list" where
  "column_sums M = map (\<lambda>j. sum_list (map (\<lambda>row. row ! j) M)) [0..<length M]"

text \<open>
  The end of \<^verbatim>\<open>discrete_var\<close>: the states whose column of counts is zero are cut from the
  counts and from \<open>S\<close>, and every remaining row is divided by its sum, computed beforehand.
\<close>

definition kept_states :: "matrix \<Rightarrow> nat list" where
  "kept_states Pi0 = filter (\<lambda>j. column_sums Pi0 ! j > 0) [0..<length Pi0]"

definition prune :: "matrix \<Rightarrow> matrix" where
  "prune Pi0 = (let indx = kept_states Pi0;
                    Pi1 = map (\<lambda>i. Pi0 ! i) indx
                in map (\<lambda>row. map (\<lambda>j. row ! j) indx) Pi1)"

definition normalize :: "matrix \<Rightarrow> npfloat list list" where
  "normalize Pi0 = (let sum_row = map sum_list Pi0
                    in map2 (\<lambda>row s. map (\<lambda>c. np_divide c s) row) Pi0 sum_row)"

record var_result =
  res_Pi :: "npfloat list list"
  res_S :: matrix
  res_Xvec :: "matrix option"

text \<open>
  \<^verbatim>\<open>discrete_var\<close>, applied in the generator state \<open>g\<close>, returns its outcome and the state in
  which it leaves the generator. \<open>A\<close> and \<open>Omega\<close> are \<open>m \<times> m\<close> arrays and \<open>grid_sizes\<close>, when
  given, is an array of \<open>m\<close> integers; the solver and the square root return \<open>m \<times> m\<close> arrays.
  A negative entry on the diagonal of the solver's result makes \<^verbatim>\<open>np.sqrt\<close> return nan: in
  the model the run goes on and raises what it raises otherwise, and where it would return
  the outcome is \<open>NonFinite\<close>.
\<close>

definition discrete_var ::
  "'g collaborators \<Rightarrow> matrix \<Rightarrow> matrix \<Rightarrow> int list option \<Rightarrow> real \<Rightarrow> int \<Rightarrow> int \<Rightarrow> int \<Rightarrow>
     bool \<Rightarrow> bool \<Rightarrow> 'g \<Rightarrow> var_result outcome \<times> 'g" where
  "discrete_var env A Omega grid_sizes std_devs seed sim_length burn_in row_major return_sim g =
     (let m = length A;
          default_grid_size = 10;
          gs = (case grid_sizes of None \<Rightarrow> replicate m default_grid_size | Some l \<Rightarrow> l);
          n = prod_list gs
      in case solve_discrete_lyapunov env A Omega of
           Inl e \<Rightarrow> (Raises e, g)
         | Inr Sigma' \<Rightarrow>
             let variances = np_diagonal Sigma';
                 sigma_vector = map sqrt variances;
                 upper_bounds = map (\<lambda>s. std_devs * s) sigma_vector
             in (case build_grids upper_bounds gs [0..<m] of
                   Inl e \<Rightarrow> (Raises e, g)
                 | Inr V \<Rightarrow>
                     (case cartesian_product V row_major of
                        Inl e \<Rightarrow> (Raises e, g)
                      | Inr S \<Rightarrow>
                          if n < 0 \<or> sim_length < 0 then (Raises NegativeDimValueError, g)
                          else
                            let Pi0 = zeros (nat n) (nat n);
                                Xvec0 = zeros m (nat sim_length);
                                C = sqrtm env Omega
                            in (case run_sim env A C Pi0 Xvec0 S sim_length burn_in seed of
                                  (Inl e, g') \<Rightarrow> (Raises e, g')
                                | (Inr (Pi1, Xvec1), g') \<Rightarrow>
                                    if \<exists>v \<in> set variances. v < 0 then (NonFinite, g')
                                    else
                                      let indx = kept_states Pi1;
                                          S' = map (\<lambda>i. S ! i) indx;
                                          Pi2 = normalize (prune Pi1)
                                      in (Returns \<lparr>res_Pi = Pi2, res_S = S',
                                                    res_Xvec = (if return_sim then Some Xvec1 else None)\<rparr>,
                                          g')))))"

section \<open>Sample collaborators\<close>

text \<open>
  A concrete function with the two properties, used to exercise the theorems on inputs: it
  decreases from 2 to 0 as the complementary error function does.
\<close>

definition erfc_sample :: "real \<Rightarrow> real" where
  "erfc_sample v = 1 - v / (1 + \<bar>v\<bar>)"

text \<open>
  Collaborators for a process of one dimension, used to run the model on inputs: the solution
  \<open>\<Sigma> = \<Omega> / (1 - a\<^sup>2)\<close> of the Lyapunov equation, the square root of the single entry, and a
  generator whose state counts the draws and whose draws repeat \<open>2, -2, 0\<close>.
\<close>

definition sample_draw :: "nat \<Rightarrow> real" where
  "sample_draw g = (if g mod 3 = 0 then 2 else if g mod 3 = 1 then - 2 else 0)"

definition sample_env :: "nat collaborators" where
  "sample_env =
     \<lparr>solve_discrete_lyapunov = (\<lambda>A Omega. Inr [[Omega ! 0 ! 0 / (1 - (A ! 0 ! 0)\<^sup>2)]]),
      sqrtm = (\<lambda>Omega. [[sqrt (Omega ! 0 ! 0)]]),
      rng_seed = (\<lambda>seed. nat seed),
      rng_randn = (\<lambda>g. (sample_draw g, Suc g))\<rparr>"

section \<open>Notions used in the statements\<close>

text \<open>An array of \<open>r\<close> rows of length \<open>c\<close>.\<close>

definition shaped :: "nat \<Rightarrow> nat \<Rightarrow> 'a list list \<Rightarrow> bool" where
  "shaped r c M \<longleftrightarrow> length M = r \<and> (\<forall>row \<in> set M. length row = c)"

text \<open>
  Entry \<open>(i, j)\<close> of the sum of the four placed copies of the \<open>m \<times> m\<close> matrix \<open>T\<close>, and of the
  matrix that \<^verbatim>\<open>row_build_mat\<close> makes of it.
\<close>

definition raw_entry :: "real \<Rightarrow> real \<Rightarrow> nat \<Rightarrow> matrix \<Rightarrow> nat \<Rightarrow> nat \<Rightarrow> real" where
  "raw_entry p q m T i j =
     (if i < m \<and> j < m then p * T ! i ! j else 0)
   + (if i < m \<and> 1 \<le> j then (1 - p) * T ! i ! (j - 1) else 0)
   + (if 1 \<le> i \<and> j < m then (1 - q) * T ! (i - 1) ! j else 0)
   + (if 1 \<le> i \<and> 1 \<le> j then q * T ! (i - 1) ! (j - 1) else 0)"

definition rouw_entry :: "real \<Rightarrow> real \<Rightarrow> nat \<Rightarrow> matrix \<Rightarrow> nat \<Rightarrow> nat \<Rightarrow> real" where
  "rouw_entry p q m T i j =
     (if 1 \<le> i \<and> i < m then raw_entry p q m T i j / 2 else raw_entry p q m T i j)"

definition row_sums_one :: "nat \<Rightarrow> matrix \<Rightarrow> bool" where
  "row_sums_one m M \<longleftrightarrow> (\<forall>i<m. (\<Sum>j<m. M ! i ! j) = 1)"

text \<open>
  The closed form of the Tauchen matrix: interior columns, the last column, the first column.
\<close>

definition tauchen_entry ::
  "(real \<Rightarrow> real) \<Rightarrow> real list \<Rightarrow> nat \<Rightarrow> real \<Rightarrow> real \<Rightarrow> real \<Rightarrow> nat \<Rightarrow> nat \<Rightarrow> real" where
  "tauchen_entry erfc x n rho sigma half_step i j =
     (if 1 \<le> j \<and> j < n - 1 then
        std_norm_cdf erfc ((x ! j - rho * x ! i + half_step) / sigma) -
        std_norm_cdf erfc ((x ! j - rho * x ! i - half_step) / sigma)
      else if j = n - 1 then
        1 - std_norm_cdf erfc ((x ! (n - 1) - rho * x ! i - half_step) / sigma)
      else std_norm_cdf erfc ((x ! 0 - rho * x ! i + half_step) / sigma))"

text \<open>What is used of the complementary error function: it does not increase, and its values
  lie between 0 and 2.\<close>

definition erfc_like :: "(real \<Rightarrow> real) \<Rightarrow> bool" where
  "erfc_like erfc \<longleftrightarrow> (\<forall>a b. a \<le> b \<longrightarrow> erfc b \<le> erfc a) \<and> (\<forall>a. 0 \<le> erfc a \<and> erfc a \<le> 2)"

definition row_stochastic :: "nat \<Rightarrow> matrix \<Rightarrow> bool" where
  "row_stochastic n M \<longleftrightarrow>
     length M = n \<and>
     (\<forall>row \<in> set M. length row = n \<and> sum_list row = 1 \<and> \<bar>sum_list row - 1\<bar> \<le> 1 / 10 ^ 10 \<and>
                     (\<forall>v \<in> set row. 0 \<le> v \<and> v \<le> 1))"

definition centrally_symmetric :: "nat \<Rightarrow> matrix \<Rightarrow> bool" where
  "centrally_symmetric n M \<longleftrightarrow> (\<forall>i<n. \<forall>j<n. M ! i ! j = M ! (n - 1 - i) ! (n - 1 - j))"

definition sums_nonneg :: "nat \<Rightarrow> matrix \<Rightarrow> bool" where
  "sums_nonneg k M \<longleftrightarrow> row_sums_one k M \<and> (\<forall>i<k. \<forall>j<k. 0 \<le> M ! i ! j)"

text \<open>The rows \<open>r @ [a]\<close> for \<open>a\<close> in \<open>v\<close> (outer) and \<open>r\<close> in \<open>rows\<close> (inner), and the set of
  all combinations of one value per grid.\<close>

definition snoc_rows :: "'a list list \<Rightarrow> 'a list \<Rightarrow> 'a list list" where
  "snoc_rows rows v = concat (map (\<lambda>a. map (\<lambda>r. r @ [a]) rows) v)"

definition combinations :: "'a list list \<Rightarrow> 'a list set" where
  "combinations V = {r. length r = length V \<and> (\<forall>i<length V. r ! i \<in> set (V ! i))}"

text \<open>The sum of all counts, and count matrices without a negative entry.\<close>

definition total :: "matrix \<Rightarrow> real" where
  "total M = sum_list (map sum_list M)"

definition nonneg_entries :: "matrix \<Rightarrow> bool" where
  "nonneg_entries M \<longleftrightarrow> (\<forall>row \<in> set M. \<forall>v \<in> set row. 0 \<le> v)"

text \<open>The matrix after \<^verbatim>\<open>Pi[i, j] += 1\<close>.\<close>

definition bump :: "matrix \<Rightarrow> nat \<Rightarrow> nat \<Rightarrow> matrix" where
  "bump M i j = M[i := (M ! i)[j := M ! i ! j + 1]]"

definition counts_ok :: "nat \<Rightarrow> 'g sim_state \<Rightarrow> bool" where
  "counts_ok n st \<longleftrightarrow> shaped n n (st_Pi st) \<and> st_ind_i st < n \<and> nonneg_entries (st_Pi st)"

text \<open>A trace whose column 0 holds the zeros it was created with.\<close>

definition first_column_zero :: "matrix \<Rightarrow> bool" where
  "first_column_zero X \<longleftrightarrow> (\<forall>row \<in> set X. row ! 0 = 0)"

text \<open>Index \<open>k\<close> is the first place where the list \<open>d\<close> is smallest.\<close>

definition first_minimum :: "real list \<Rightarrow> nat \<Rightarrow> bool" where
  "first_minimum d k \<longleftrightarrow> k < length d \<and> (\<forall>j<length d. d ! k \<le> d ! j) \<and> (\<forall>j<k. d ! k < d ! j)"

text \<open>
  The errors of the module that a \<^verbatim>\<open>raise\<close> statement of the source raises, with a message
  naming what the argument violates. There is one: the ValueError of \<^verbatim>\<open>row_build_mat\<close>,
  "The number of states must be positive and greater than or equal to 2". Every other error
  of the module arises inside an operation.
\<close>

definition explicitly_raised :: "error \<Rightarrow> bool" where
  "explicitly_raised e \<longleftrightarrow> e = StatesValueError"

section \<open>Double-precision arithmetic\<close>

text \<open>
  The matrix of \<^verbatim>\<open>rouwenhorst\<close> is computed a second time as numpy computes it, in IEEE 754
  binary64 numbers. A double is read as the real number it stands for, and every operation is
  the exact one followed by the rounding \<open>round64\<close>. Infinities and nan are not part of this
  model: in the computations below every value stays in \<open>[-2, 2]\<close>.
\<close>

text \<open>
  The position of the leading binary digit of a positive real \<open>x\<close>, that is
  \<open>\<lfloor>log\<^sub>2 x\<rfloor>\<close>, from the bit length of an integer.
\<close>

definition ilog2 :: "real \<Rightarrow> int" where
  "ilog2 x = (if 1 \<le> x then bitlen \<lfloor>x\<rfloor> - 1 else - bitlen (\<lceil>1 / x\<rceil> - 1))"

definition pow2 :: "int \<Rightarrow> real" where
  "pow2 e = (if 0 \<le> e then 2 ^ nat e else 1 / 2 ^ nat (- e))"

text \<open>The integer nearest to \<open>x\<close>, and the even one of the two when \<open>x\<close> lies half way.\<close>

definition round_even :: "real \<Rightarrow> int" where
  "round_even x =
     (let f = \<lfloor>x\<rfloor>; d = x - of_int f
      in if d < 1 / 2 then f else if 1 / 2 < d then f + 1 else if even f then f else f + 1)"

text \<open>
  Round to nearest, ties to even: 53 significant binary digits, the last of them at an
  exponent not below \<open>-1074\<close>, the spacing of the subnormal numbers.
\<close>

definition round64 :: "real \<Rightarrow> real" where
  "round64 x =
     (if x = 0 then 0
      else let e = max (ilog2 \<bar>x\<bar>) (- 1022) - 52
           in of_int (round_even (x / pow2 e)) * pow2 e)"

text \<open>Sum, difference, product and quotient of two doubles.\<close>

definition fl_add :: "real \<Rightarrow> real \<Rightarrow> real" where
  "fl_add a b = round64 (a + b)"

definition fl_sub :: "real \<Rightarrow> real \<Rightarrow> real" where
  "fl_sub a b = round64 (a - b)"

definition fl_mul :: "real \<Rightarrow> real \<Rightarrow> real" where
  "fl_mul a b = round64 (a * b)"

definition fl_div :: "real \<Rightarrow> real \<Rightarrow> real" where
  "fl_div a b = round64 (a / b)"

text \<open>
  The array operations of \<^verbatim>\<open>row_build_mat\<close>; numpy rounds element by element.
\<close>

definition fl_smult :: "real \<Rightarrow> matrix \<Rightarrow> matrix" where
  "fl_smult a M = map (map (\<lambda>v. fl_mul a v)) M"

definition fl_madd :: "matrix \<Rightarrow> matrix \<Rightarrow> matrix" where
  "fl_madd M N = map2 (map2 fl_add) M N"

definition fl_halve_rows :: "matrix \<Rightarrow> nat \<Rightarrow> nat \<Rightarrow> matrix" where
  "fl_halve_rows M a b =
     map (\<lambda>i. if a \<le> i \<and> i < b then map (\<lambda>v. fl_div v 2) (M ! i) else M ! i) [0..<length M]"

text \<open>
  \<^verbatim>\<open>row_build_mat\<close> on doubles: the function \<open>row_build_mat\<close> above with every operation
  rounded. \<^verbatim>\<open>p1 + p2 + p3 + p4\<close> is summed from the left.
\<close>

function row_build_mat_f64 :: "int \<Rightarrow> real \<Rightarrow> real \<Rightarrow> error + matrix" where
  "row_build_mat_f64 n p q =
     (if n = 2 then Inr [[p, fl_sub 1 p], [fl_sub 1 q, q]]
      else if n > 2 then
        (case row_build_mat_f64 (n - 1) p q of
           Inl e \<Rightarrow> Inl e
         | Inr new_mat \<Rightarrow>
             let k = nat n;
                 p1 = assign_block (zeros k k) 0 0 (fl_smult p new_mat);
                 p2 = assign_block (zeros k k) 0 1 (fl_smult (fl_sub 1 p) new_mat);
                 p3 = assign_block (zeros k k) 1 0 (fl_smult (fl_sub 1 q) new_mat);
                 p4 = assign_block (zeros k k) 1 1 (fl_smult q new_mat);
                 theta = fl_madd (fl_madd (fl_madd p1 p2) p3) p4
             in Inr (fl_halve_rows theta 1 (k - 1)))
      else Inl StatesValueError)"
  by pat_completeness auto

termination
  by (relation "measure (\<lambda>(n, p, q). nat n)") auto

declare row_build_mat_f64.simps [simp del]

text \<open>
  The matrix \<^verbatim>\<open>theta\<close> that \<^verbatim>\<open>rouwenhorst\<close> hands to the chain, on doubles:
  \<^verbatim>\<open>p = (1 + rho) / 2\<close>, \<^verbatim>\<open>q = p\<close>, \<^verbatim>\<open>theta = row_build_mat(n, p, q)\<close>. The grid and the
  standard deviation do not enter it.
\<close>

definition rouwenhorst_theta_f64 :: "int \<Rightarrow> real \<Rightarrow> error + matrix" where
  "rouwenhorst_theta_f64 n rho =
     (let p = fl_div (fl_add 1 rho) 2;
          q = p
      in row_build_mat_f64 n p q)"

section \<open>Shapes and entries of the array operations\<close>

lemma shapedD: "shaped r c M \<Longrightarrow> length M = r" "shaped r c M \<Longrightarrow> i < r \<Longrightarrow> length (M ! i) = c"
  by (auto simp: shaped_def)

lemma shapedI: "length M = r \<Longrightarrow> (\<And>i. i < r \<Longrightarrow> length (M ! i) = c) \<Longrightarrow> shaped r c M"
  by (auto simp: shaped_def in_set_conv_nth)

lemma shaped_zeros: "shaped r c (zeros r c)"
  by (simp add: shaped_def zeros_def)

lemma shaped_smult: "shaped r c M \<Longrightarrow> shaped r c (smult a M)"
  by (auto simp: shaped_def smult_def)

lemma smult_nth: "shaped r c M \<Longrightarrow> i < r \<Longrightarrow> j < c \<Longrightarrow> smult a M ! i ! j = a * M ! i ! j"
  by (simp add: shaped_def smult_def)

lemma shaped_madd: "shaped r c M \<Longrightarrow> shaped r c N \<Longrightarrow> shaped r c (madd M N)"
  by (rule shapedI) (simp_all add: madd_def shapedD)

lemma madd_nth:
  "shaped r c M \<Longrightarrow> shaped r c N \<Longrightarrow> i < r \<Longrightarrow> j < c \<Longrightarrow> madd M N ! i ! j = M ! i ! j + N ! i ! j"
  by (simp add: madd_def shapedD)

lemma shaped_assign_block: "shaped r c Z \<Longrightarrow> shaped r c (assign_block Z r0 c0 B)"
  by (rule shapedI) (simp_all add: assign_block_def shapedD)

lemma assign_block_nth:
  "shaped r c Z \<Longrightarrow> i < r \<Longrightarrow> j < c \<Longrightarrow>
   assign_block Z r0 c0 B ! i ! j =
     (if r0 \<le> i \<and> i < r0 + length B \<and> c0 \<le> j \<and> j < c0 + length (B ! (i - r0))
      then B ! (i - r0) ! (j - c0) else Z ! i ! j)"
  by (simp add: assign_block_def shapedD)

lemma zeros_nth: "i < r \<Longrightarrow> j < c \<Longrightarrow> zeros r c ! i ! j = 0"
  by (simp add: zeros_def)

lemma shaped_halve_rows: "shaped r c M \<Longrightarrow> shaped r c (halve_rows M a b)"
  by (rule shapedI) (auto simp: halve_rows_def shapedD)

lemma halve_rows_nth:
  "shaped r c M \<Longrightarrow> i < r \<Longrightarrow> j < c \<Longrightarrow>
   halve_rows M a b ! i ! j = (if a \<le> i \<and> i < b then M ! i ! j / 2 else M ! i ! j)"
  by (simp add: halve_rows_def shapedD)

section \<open>The Rouwenhorst recursion\<close>

lemma placed_nth:
  assumes sh: "shaped m m T" and i: "i < Suc m" and j: "j < Suc m"
  shows "assign_block (zeros (Suc m) (Suc m)) r0 c0 (smult a T) ! i ! j =
          (if r0 \<le> i \<and> i < r0 + m \<and> c0 \<le> j \<and> j < c0 + m then a * T ! (i - r0) ! (j - c0) else 0)"
proof -
  have l: "length (smult a T) = m" "\<And>i. i < m \<Longrightarrow> length (smult a T ! i) = m"
    using shaped_smult[OF sh, of a] by (auto simp: shapedD)
  show ?thesis
    using i j by (auto simp: assign_block_nth[OF shaped_zeros] zeros_nth l smult_nth[OF sh])
qed

lemma row_build_mat_step:
  assumes n: "2 < n" and T: "row_build_mat (n - 1) p q = Inr T" and k: "nat n = Suc m" and sh: "shaped m m T"
  shows "\<exists>M. row_build_mat n p q = Inr M \<and> shaped (Suc m) (Suc m) M \<and>
          (\<forall>i<Suc m. \<forall>j<Suc m. M ! i ! j =
              (if 1 \<le> i \<and> i < m then raw_entry p q m T i j / 2
               else raw_entry p q m T i j))"
proof -
  let ?k = "Suc m"
  let ?Z = "zeros ?k ?k"
  let ?p1 = "assign_block ?Z 0 0 (smult p T)"
  let ?p2 = "assign_block ?Z 0 1 (smult (1 - p) T)"
  let ?p3 = "assign_block ?Z 1 0 (smult (1 - q) T)"
  let ?p4 = "assign_block ?Z 1 1 (smult q T)"
  let ?th = "madd (madd (madd ?p1 ?p2) ?p3) ?p4"
  have eq: "row_build_mat n p q = Inr (halve_rows ?th 1 (?k - 1))"
    using n T k by (subst row_build_mat.simps) (simp add: Let_def)
  have shs: "shaped ?k ?k ?p1" "shaped ?k ?k ?p2" "shaped ?k ?k ?p3" "shaped ?k ?k ?p4"
    by (simp_all add: shaped_assign_block shaped_zeros)
  have sh12: "shaped ?k ?k (madd ?p1 ?p2)" by (intro shaped_madd shs)
  have sh123: "shaped ?k ?k (madd (madd ?p1 ?p2) ?p3)" by (intro shaped_madd shs)
  have shth: "shaped ?k ?k ?th" by (intro shaped_madd shs)
  have ent: "?th ! i ! j = raw_entry p q m T i j" if "i < ?k" "j < ?k" for i j
  proof -
    have "?th ! i ! j = ?p1 ! i ! j + ?p2 ! i ! j + ?p3 ! i ! j + ?p4 ! i ! j"
      using that madd_nth[OF sh123 shs(4), of i j] madd_nth[OF sh12 shs(3), of i j]
        madd_nth[OF shs(1) shs(2), of i j] by linarith
    also have "\<dots> = raw_entry p q m T i j"
      unfolding placed_nth[OF sh that] raw_entry_def using that
      by (intro arg_cong2[where f="(+)"] if_cong refl) auto
    finally show ?thesis .
  qed
  have "shaped ?k ?k (halve_rows ?th 1 (?k - 1))" by (rule shaped_halve_rows[OF shth])
  moreover have "halve_rows ?th 1 (?k - 1) ! i ! j =
      (if 1 \<le> i \<and> i < m then raw_entry p q m T i j / 2 else raw_entry p q m T i j)"
    if "i < ?k" "j < ?k" for i j
    using halve_rows_nth[OF shth that, of 1 "?k - 1"] ent[OF that] by simp
  ultimately show ?thesis unfolding eq by blast
qed

lemma row_build_mat_induct:
  assumes base: "Q 2 [[p, 1 - p], [1 - q, q]]"
    and step: "\<And>m T M. 2 \<le> m \<Longrightarrow> shaped m m T \<Longrightarrow> Q m T \<Longrightarrow> shaped (Suc m) (Suc m) M \<Longrightarrow>
                 (\<forall>i<Suc m. \<forall>j<Suc m. M ! i ! j = rouw_entry p q m T i j) \<Longrightarrow> Q (Suc m) M"
  shows "\<exists>M. row_build_mat (int k + 2) p q = Inr M \<and> shaped (k + 2) (k + 2) M \<and> Q (k + 2) M"
proof (induction k)
  case 0
  have "row_build_mat 2 p q = Inr [[p, 1 - p], [1 - q, q]]"
    by (subst row_build_mat.simps) simp
  moreover have "shaped 2 2 [[p, 1 - p], [1 - q, q]]"
    by (simp add: shaped_def)
  moreover have e: "(0::nat) + 2 = 2" "int 0 + 2 = 2" by simp_all
  ultimately show ?case unfolding e using base by blast
next
  case (Suc k)
  then obtain T where T: "row_build_mat (int k + 2) p q = Inr T" "shaped (k + 2) (k + 2) T" "Q (k + 2) T"
    by blast
  have "\<exists>M. row_build_mat (int (Suc k) + 2) p q = Inr M \<and> shaped (Suc (k + 2)) (Suc (k + 2)) M \<and>
          (\<forall>i<Suc (k + 2). \<forall>j<Suc (k + 2). M ! i ! j =
              (if 1 \<le> i \<and> i < k + 2 then raw_entry p q (k + 2) T i j / 2
               else raw_entry p q (k + 2) T i j))"
    by (rule row_build_mat_step[OF _ _ _ T(2)]) (use T(1) in \<open>simp_all add: algebra_simps\<close>)
  then obtain M where M: "row_build_mat (int (Suc k) + 2) p q = Inr M"
      "shaped (Suc (k + 2)) (Suc (k + 2)) M"
      "\<forall>i<Suc (k + 2). \<forall>j<Suc (k + 2). M ! i ! j = rouw_entry p q (k + 2) T i j"
    unfolding rouw_entry_def by blast
  have "Q (Suc (k + 2)) M"
    by (rule step[OF _ T(2) T(3) M(2) M(3)]) simp
  then show ?case using M by simp
qed

lemma sum_shift_lo: "(\<Sum>j<Suc m. if j < m then f j else (0::real)) = (\<Sum>j<m. f j)"
  by simp

lemma sum_shift_hi: "(\<Sum>j<Suc m. if 1 \<le> j then f (j - 1) else (0::real)) = (\<Sum>j<m. f j)"
  by (subst sum.lessThan_Suc_shift) simp

lemma raw_entry_row_sum:
  assumes "i < m \<Longrightarrow> (\<Sum>j<m. T ! i ! j) = 1" "1 \<le> i \<Longrightarrow> (\<Sum>j<m. T ! (i - 1) ! j) = 1"
  shows "(\<Sum>j<Suc m. raw_entry p q m T i j) = (if i < m then 1 else 0) + (if 1 \<le> i then 1 else 0)"
proof -
  have a: "(\<Sum>j<Suc m. if i < m \<and> j < m then p * T ! i ! j else 0) = (if i < m then p else 0)"
    using sum_shift_lo[where m=m and f="\<lambda>j. p * T ! i ! j"] assms(1)
    by (simp add: sum_distrib_left[symmetric] del: sum.lessThan_Suc)
  have b: "(\<Sum>j<Suc m. if i < m \<and> 1 \<le> j then (1 - p) * T ! i ! (j - 1) else 0) = (if i < m then 1 - p else 0)"
    using sum_shift_hi[where m=m and f="\<lambda>j. (1 - p) * T ! i ! j"] assms(1)
    by (simp add: sum_distrib_left[symmetric] del: sum.lessThan_Suc)
  have c: "(\<Sum>j<Suc m. if 1 \<le> i \<and> j < m then (1 - q) * T ! (i - 1) ! j else 0) = (if 1 \<le> i then 1 - q else 0)"
    using sum_shift_lo[where m=m and f="\<lambda>j. (1 - q) * T ! (i - 1) ! j"] assms(2)
    by (simp add: sum_distrib_left[symmetric] del: sum.lessThan_Suc)
  have d: "(\<Sum>j<Suc m. if 1 \<le> i \<and> 1 \<le> j then q * T ! (i - 1) ! (j - 1) else 0) = (if 1 \<le> i then q else 0)"
    using sum_shift_hi[where m=m and f="\<lambda>j. q * T ! (i - 1) ! j"] assms(2)
    by (simp add: sum_distrib_left[symmetric] del: sum.lessThan_Suc)
  show ?thesis
    unfolding raw_entry_def sum.distrib a b c d by simp
qed

lemma rouw_row_sums:
  assumes m: "2 \<le> m" and T: "row_sums_one m T" and i: "i < Suc m"
  shows "(\<Sum>j<Suc m. rouw_entry p q m T i j) = 1"
proof -
  have 1: "(\<Sum>j<m. T ! i ! j) = 1" if "i < m"
    using T that by (simp add: row_sums_one_def)
  have 2: "(\<Sum>j<m. T ! (i - 1) ! j) = 1" if "1 \<le> i"
    using T that i by (simp add: row_sums_one_def)
  consider "i = 0" | "1 \<le> i" "i < m" | "i = m" using i by linarith
  then show ?thesis
  proof cases
    case 1
    have "(\<Sum>j<Suc m. raw_entry p q m T 0 j) = 1"
      using raw_entry_row_sum[where m=m and T=T and i=0 and p=p and q=q] T m by (simp add: row_sums_one_def)
    then show ?thesis using 1 by (simp add: rouw_entry_def)
  next
    case 2
    have "(\<Sum>j<Suc m. raw_entry p q m T i j) = 2"
      using raw_entry_row_sum[where m=m and T=T and i=i and p=p and q=q] T 2 by (simp add: row_sums_one_def)
    then have "(\<Sum>j<Suc m. raw_entry p q m T i j / 2) = 1"
      unfolding sum_divide_distrib[symmetric] by simp
    then show ?thesis using 2 by (simp add: rouw_entry_def)
  next
    case 3
    have "(\<Sum>j<Suc m. raw_entry p q m T m j) = 1"
      using raw_entry_row_sum[where m=m and T=T and i=m and p=p and q=q] T m by (simp add: row_sums_one_def)
    then show ?thesis using 3 by (simp add: rouw_entry_def)
  qed
qed

lemma raw_entry_nonneg:
  assumes "0 \<le> p" "p \<le> 1" "0 \<le> q" "q \<le> 1" and T: "\<forall>i<m. \<forall>j<m. 0 \<le> T ! i ! j"
    and "i < Suc m" "j < Suc m"
  shows "0 \<le> raw_entry p q m T i j"
  unfolding raw_entry_def using assms
  by (intro add_nonneg_nonneg) auto

lemma rouw_entry_nonneg:
  assumes "0 \<le> p" "p \<le> 1" "0 \<le> q" "q \<le> 1" and T: "\<forall>i<m. \<forall>j<m. 0 \<le> T ! i ! j"
    and "i < Suc m" "j < Suc m"
  shows "0 \<le> rouw_entry p q m T i j"
  using raw_entry_nonneg[OF assms] by (simp add: rouw_entry_def)

lemma raw_entry_sym:
  assumes m: "1 \<le> m" and T: "\<forall>i<m. \<forall>j<m. T ! i ! j = T ! (m - 1 - i) ! (m - 1 - j)"
    and i: "i < Suc m" and j: "j < Suc m"
  shows "raw_entry p p m T (m - i) (m - j) = raw_entry p p m T i j"
proof -
  have a: "(if m - i < m \<and> m - j < m then p * T ! (m - i) ! (m - j) else 0)
         = (if 1 \<le> i \<and> 1 \<le> j then p * T ! (i - 1) ! (j - 1) else 0)"
    using T[rule_format, of "i - 1" "j - 1"] i j m by (auto simp: Suc_diff_le)
  have b: "(if m - i < m \<and> 1 \<le> m - j then (1 - p) * T ! (m - i) ! (m - j - 1) else 0)
         = (if 1 \<le> i \<and> j < m then (1 - p) * T ! (i - 1) ! j else 0)"
    using T[rule_format, of "i - 1" "j"] i j m by (auto simp: Suc_diff_le)
  have c: "(if 1 \<le> m - i \<and> m - j < m then (1 - p) * T ! (m - i - 1) ! (m - j) else 0)
         = (if i < m \<and> 1 \<le> j then (1 - p) * T ! i ! (j - 1) else 0)"
    using T[rule_format, of "i" "j - 1"] i j m by (auto simp: Suc_diff_le)
  have d: "(if 1 \<le> m - i \<and> 1 \<le> m - j then p * T ! (m - i - 1) ! (m - j - 1) else 0)
         = (if i < m \<and> j < m then p * T ! i ! j else 0)"
    using T[rule_format, of "i" "j"] i j m by (auto simp: Suc_diff_le)
  show ?thesis unfolding raw_entry_def a b c d by simp
qed

lemma rouw_entry_sym:
  assumes m: "1 \<le> m" and T: "\<forall>i<m. \<forall>j<m. T ! i ! j = T ! (m - 1 - i) ! (m - 1 - j)"
    and i: "i < Suc m" and j: "j < Suc m"
  shows "rouw_entry p p m T (m - i) (m - j) = rouw_entry p p m T i j"
proof -
  have "(1 \<le> m - i \<and> m - i < m) = (1 \<le> i \<and> i < m)" using i by auto
  then show ?thesis
    unfolding rouw_entry_def raw_entry_sym[OF assms] by simp
qed

section \<open>The Tauchen fill\<close>

lemma fold_update_length: "length (fold (\<lambda>j r. r[j := f j]) js r) = length r"
  by (induction js arbitrary: r) simp_all

lemma fold_update_nth:
  "k < length r \<Longrightarrow>
   fold (\<lambda>j r. r[j := f j]) [a..<b] r ! k = (if a \<le> k \<and> k < b then f k else r ! k)"
proof (induction b arbitrary: k)
  case 0
  then show ?case by simp
next
  case (Suc b)
  show ?case
  proof (cases "a \<le> b")
    case True
    then show ?thesis using Suc.IH[of k] Suc.prems
      by (cases "k = b") (auto simp: fold_update_length nth_list_update)
  next
    case False
    then show ?thesis by auto
  qed
qed

lemma fold_rows_length: "length (fold (\<lambda>i M. M[i := g i (M ! i)]) js M) = length M"
  by (induction js arbitrary: M) simp_all

lemma fold_rows_nth:
  "k < length M \<Longrightarrow>
   fold (\<lambda>i M. M[i := g i (M ! i)]) [a..<b] M ! k = (if a \<le> k \<and> k < b then g k (M ! k) else M ! k)"
proof (induction b arbitrary: k)
  case 0
  then show ?case by simp
next
  case (Suc b)
  show ?case
  proof (cases "a \<le> b")
    case True
    then show ?thesis using Suc.IH[of k] Suc.IH[of b] Suc.prems
      by (cases "k = b") (auto simp: fold_rows_length nth_list_update)
  next
    case False
    then show ?thesis by auto
  qed
qed

lemma fill_tauchen_row_length:
  "length (fill_tauchen_row erfc x n rho sigma half_step i row) = length row"
  by (simp add: fill_tauchen_row_def Let_def fold_update_length)

lemma fill_tauchen_row_nth:
  assumes "length row = n" "j < n"
  shows "fill_tauchen_row erfc x n rho sigma half_step i row ! j =
         tauchen_entry erfc x n rho sigma half_step i j"
  using assms
  by (auto simp: fill_tauchen_row_def Let_def fold_update_nth tauchen_entry_def nth_list_update)

lemma fill_tauchen_nth:
  assumes "shaped n n P0" "sigma \<noteq> 0 \<or> n = 0"
  shows "\<exists>M. fill_tauchen erfc x P0 n rho sigma half_step = Inr M \<and> shaped n n M \<and>
           (\<forall>i<n. \<forall>j<n. M ! i ! j = tauchen_entry erfc x n rho sigma half_step i j)"
proof -
  let ?g = "\<lambda>i. fill_tauchen_row erfc x n rho sigma half_step i"
  let ?M = "fold (\<lambda>i M. M[i := ?g i (M ! i)]) [0..<n] P0"
  have eq: "fill_tauchen erfc x P0 n rho sigma half_step = Inr ?M"
    using assms(2) by (auto simp: fill_tauchen_def)
  have len: "length ?M = n" using assms(1) by (simp add: fold_rows_length shapedD)
  have row: "?M ! i = ?g i (P0 ! i)" if "i < n" for i
    using that assms(1) by (simp add: fold_rows_nth shapedD)
  have "shaped n n ?M"
    by (rule shapedI[OF len]) (simp add: row fill_tauchen_row_length shapedD[OF assms(1)])
  moreover have "?M ! i ! j = tauchen_entry erfc x n rho sigma half_step i j" if "i < n" "j < n" for i j
    using that by (simp add: row fill_tauchen_row_nth shapedD[OF assms(1)])
  ultimately show ?thesis using eq by blast
qed

lemma rho_sq_lt_1: "\<bar>rho\<bar> < 1 \<Longrightarrow> 0 < 1 - (rho::real)\<^sup>2"
  using abs_square_less_1[of rho] by simp

lemma linspace_ge2:
  "2 \<le> n \<Longrightarrow> linspace a b n = Inr (map (\<lambda>i. a + real i * ((b - a) / real_of_int (n - 1))) [0..<nat n])"
  by (simp add: linspace_def)

lemma tauchen_ReturnsE:
  assumes "tauchen erfc rho sigma_u b m n = Returns mc"
  obtains x M where "tauchen_x rho sigma_u m n = Inr x" "n \<noteq> 1" "1 - rho\<^sup>2 \<noteq> 0"
    "fill_tauchen erfc x (zeros (nat n) (nat n)) (nat n) rho sigma_u (tauchen_half_step rho sigma_u m n) = Inr M"
    "mc = \<lparr>P = M, state_values = map (\<lambda>v. v + b / (1 - rho)) x\<rparr>"
  using assms
  by (auto simp: tauchen_def Let_def split: if_splits sum.splits)

lemma tauchen_Returns_entries:
  assumes "tauchen erfc rho sigma_u b m n = Returns mc" "tauchen_x rho sigma_u m n = Inr x"
  shows "shaped (nat n) (nat n) (P mc) \<and> (\<forall>i<nat n. \<forall>j<nat n. P mc ! i ! j =
           tauchen_entry erfc x (nat n) rho sigma_u (tauchen_half_step rho sigma_u m n) i j)"
proof -
  from assms(1) obtain x' M where x': "tauchen_x rho sigma_u m n = Inr x'"
    and f: "fill_tauchen erfc x' (zeros (nat n) (nat n)) (nat n) rho sigma_u (tauchen_half_step rho sigma_u m n) = Inr M"
    and mc: "mc = \<lparr>P = M, state_values = map (\<lambda>v. v + b / (1 - rho)) x'\<rparr>"
    by (rule tauchen_ReturnsE)
  have xx: "x' = x" using x' assms(2) by simp
  have s: "sigma_u \<noteq> 0 \<or> nat n = 0"
    using f by (auto simp: fill_tauchen_def split: if_splits)
  from fill_tauchen_nth[OF shaped_zeros s, of erfc x rho "tauchen_half_step rho sigma_u m n"] f xx mc
  show ?thesis by auto
qed

lemma tauchen_valid_Returns:
  assumes n: "2 \<le> n" and rho: "\<bar>rho\<bar> < 1" and s: "sigma_u \<noteq> 0"
  shows "\<exists>mc. tauchen erfc rho sigma_u b m n = Returns mc"
proof -
  have r: "0 < 1 - rho\<^sup>2" by (rule rho_sq_lt_1[OF rho])
  have q: "\<not> sigma_u\<^sup>2 / (1 - rho\<^sup>2) < 0" using r by (simp add: divide_less_0_iff not_less)
  obtain x where x: "tauchen_x rho sigma_u m n = Inr x"
    using n by (auto simp: tauchen_x_def Let_def linspace_def)
  obtain M where M: "fill_tauchen erfc x (zeros (nat n) (nat n)) (nat n) rho sigma_u (tauchen_half_step rho sigma_u m n) = Inr M"
    using s by (auto simp: fill_tauchen_def)
  show ?thesis using n r q x M by (simp add: tauchen_def Let_def)
qed

text \<open>The points of the grid, and the edge that two neighbouring cells share.\<close>

lemma tauchen_x_nth:
  assumes n: "2 \<le> n" and x: "tauchen_x rho sigma_u m n = Inr x"
  shows "length x = nat n"
    and "j < nat n \<Longrightarrow> x ! j = - (m * tauchen_std_y rho sigma_u) + real j * (2 * tauchen_half_step rho sigma_u m n)"
proof -
  define X where "X = m * tauchen_std_y rho sigma_u"
  define t where "t = (X - - X) / real_of_int (n - 1)"
  have "tauchen_half_step rho sigma_u m n = 0.5 * t"
    unfolding tauchen_half_step_def Let_def X_def t_def ..
  then have h: "2 * tauchen_half_step rho sigma_u m n = (X - - X) / real_of_int (n - 1)"
    unfolding t_def[symmetric] by simp
  have xs: "x = map (\<lambda>i. - X + real i * ((X - - X) / real_of_int (n - 1))) [0..<nat n]"
    using x linspace_ge2[OF n, of "- X" X] by (simp add: tauchen_x_def Let_def X_def)
  show "length x = nat n" by (simp add: xs)
  show "x ! j = - (m * tauchen_std_y rho sigma_u) + real j * (2 * tauchen_half_step rho sigma_u m n)"
    if "j < nat n"
    unfolding h using that by (simp add: xs X_def)
qed

lemma tauchen_cell_edges:
  assumes n: "2 \<le> n" and x: "tauchen_x rho sigma_u m n = Inr x" and j: "Suc j < nat n"
  shows "x ! Suc j - tauchen_half_step rho sigma_u m n = x ! j + tauchen_half_step rho sigma_u m n"
  using tauchen_x_nth(2)[OF n x, of j] tauchen_x_nth(2)[OF n x, of "Suc j"] j
  by (simp add: algebra_simps)

lemma tauchen_half_step_nonneg:
  assumes "2 \<le> n" "0 \<le> m" "\<bar>rho\<bar> < 1"
  shows "0 \<le> tauchen_half_step rho sigma_u m n"
proof -
  have "0 \<le> tauchen_std_y rho sigma_u"
    using rho_sq_lt_1[OF assms(3)] by (simp add: tauchen_std_y_def)
  then have "0 \<le> m * tauchen_std_y rho sigma_u" using assms(2) by simp
  then show ?thesis using assms(1) by (simp add: tauchen_half_step_def Let_def)
qed

text \<open>The entries of a row telescope.\<close>

lemma tauchen_entry_row_sum:
  assumes n: "2 \<le> n" and edges: "\<And>j. Suc j < n \<Longrightarrow> x ! Suc j - h = x ! j + h"
  shows "(\<Sum>j<n. tauchen_entry erfc x n rho sigma h i j) = 1"
proof -
  define u where "u j = std_norm_cdf erfc ((x ! j - rho * x ! i + h) / sigma)" for j
  obtain k where k: "n = Suc (Suc k)" using n by (metis Suc_le_D numeral_2_eq_2 Suc_le_mono)
  have e0: "tauchen_entry erfc x n rho sigma h i 0 = u 0"
    using k by (simp add: tauchen_entry_def u_def)
  have el: "tauchen_entry erfc x n rho sigma h i (Suc k) = 1 - u k"
    using k edges[of k] by (simp add: tauchen_entry_def u_def algebra_simps)
  have em: "tauchen_entry erfc x n rho sigma h i (Suc j) = u (Suc j) - u j" if "j < k" for j
  proof -
    have a: "x ! Suc j - rho * x ! i - h = x ! j - rho * x ! i + h"
      using edges[of j] that k by simp
    have c: "1 \<le> Suc j \<and> Suc j < n - 1" using that k by simp
    show ?thesis unfolding tauchen_entry_def u_def if_P[OF c] a ..
  qed
  have "(\<Sum>j<n. tauchen_entry erfc x n rho sigma h i j)
      = tauchen_entry erfc x n rho sigma h i 0
        + (\<Sum>j<k. tauchen_entry erfc x n rho sigma h i (Suc j))
        + tauchen_entry erfc x n rho sigma h i (Suc k)"
    unfolding k by (subst sum.lessThan_Suc_shift) simp
  also have "(\<Sum>j<k. tauchen_entry erfc x n rho sigma h i (Suc j)) = (\<Sum>j<k. u (Suc j) - u j)"
    by (rule sum.cong) (simp_all add: em)
  also have "\<dots> = u k - u 0" by (rule sum_lessThan_telescope)
  finally show ?thesis by (simp add: e0 el)
qed

lemma std_norm_cdf_range: "erfc_like erfc \<Longrightarrow> 0 \<le> std_norm_cdf erfc v \<and> std_norm_cdf erfc v \<le> 1"
  by (simp add: erfc_like_def std_norm_cdf_def)

lemma std_norm_cdf_mono: "erfc_like erfc \<Longrightarrow> a \<le> b \<Longrightarrow> std_norm_cdf erfc a \<le> std_norm_cdf erfc b"
  by (simp add: erfc_like_def std_norm_cdf_def divide_right_mono)

lemma tauchen_entry_range:
  assumes e: "erfc_like erfc" and h: "0 \<le> h" and s: "0 < sigma"
  shows "0 \<le> tauchen_entry erfc x n rho sigma h i j \<and> tauchen_entry erfc x n rho sigma h i j \<le> 1"
proof -
  have m: "std_norm_cdf erfc ((x ! j - rho * x ! i - h) / sigma) \<le> std_norm_cdf erfc ((x ! j - rho * x ! i + h) / sigma)"
    by (rule std_norm_cdf_mono[OF e]) (use h s in \<open>simp add: divide_right_mono\<close>)
  show ?thesis
    using m std_norm_cdf_range[OF e, of "(x ! j - rho * x ! i + h) / sigma"]
      std_norm_cdf_range[OF e, of "(x ! j - rho * x ! i - h) / sigma"]
      std_norm_cdf_range[OF e, of "(x ! (n - 1) - rho * x ! i - h) / sigma"]
      std_norm_cdf_range[OF e, of "(x ! 0 - rho * x ! i + h) / sigma"]
    by (auto simp: tauchen_entry_def)
qed

section \<open>Stochastic and centrally symmetric matrices\<close>

lemma row_stochasticI:
  assumes sh: "shaped n n M"
    and sums: "\<And>i. i < n \<Longrightarrow> (\<Sum>j<n. M ! i ! j) = 1"
    and nonneg: "\<And>i j. i < n \<Longrightarrow> j < n \<Longrightarrow> 0 \<le> M ! i ! j"
  shows "row_stochastic n M"
proof -
  have "length row = n \<and> sum_list row = 1 \<and> \<bar>sum_list row - 1\<bar> \<le> 1 / 10 ^ 10 \<and> (\<forall>v \<in> set row. 0 \<le> v \<and> v \<le> 1)"
    if "row \<in> set M" for row
  proof -
    from that obtain i where i: "i < n" "row = M ! i"
      using sh by (auto simp: in_set_conv_nth shaped_def)
    have len: "length row = n" using sh i by (simp add: shapedD)
    have s: "sum_list row = (\<Sum>j<n. row ! j)"
      using len by (simp add: sum_list_sum_nth atLeast0LessThan)
    then have s1: "sum_list row = 1" using sums[OF i(1)] i(2) by simp
    have "0 \<le> v \<and> v \<le> 1" if "v \<in> set row" for v
    proof -
      from that obtain j where j: "j < n" "v = row ! j"
        using len by (auto simp: in_set_conv_nth)
      have "row ! j \<le> (\<Sum>j<n. row ! j)"
        by (rule member_le_sum) (use j i nonneg in auto)
      then show ?thesis using j i nonneg[of i j] s s1 by simp
    qed
    then show ?thesis using len s1 by simp
  qed
  then show ?thesis using sh by (simp add: row_stochastic_def shapedD)
qed

lemma rouwenhorst_of_row_build_mat:
  assumes n: "2 \<le> n" and rho: "\<bar>rho\<bar> < 1"
    and M: "row_build_mat n ((1 + rho) / 2) ((1 + rho) / 2) = Inr M"
  shows "\<exists>bar. rouwenhorst n ybar sigma rho = Inr \<lparr>P = M, state_values = bar\<rparr>"
proof -
  have r: "0 < 1 - rho\<^sup>2" by (rule rho_sq_lt_1[OF rho])
  have q: "\<not> sigma\<^sup>2 / (1 - rho\<^sup>2) < 0" using r by (simp add: divide_less_0_iff not_less)
  show ?thesis using n r q M by (simp add: rouwenhorst_def Let_def linspace_def)
qed

lemma row_build_mat_ge2:
  assumes n: "2 \<le> n"
    and base: "Q 2 [[p, 1 - p], [1 - q, q]]"
    and step: "\<And>m T M. 2 \<le> m \<Longrightarrow> shaped m m T \<Longrightarrow> Q m T \<Longrightarrow> shaped (Suc m) (Suc m) M \<Longrightarrow>
                 (\<forall>i<Suc m. \<forall>j<Suc m. M ! i ! j = rouw_entry p q m T i j) \<Longrightarrow> Q (Suc m) M"
  shows "\<exists>M. row_build_mat n p q = Inr M \<and> shaped (nat n) (nat n) M \<and> Q (nat n) M"
proof -
  define k where "k = nat (n - 2)"
  have e: "int k + 2 = n" "k + 2 = nat n" using n by (simp_all add: k_def)
  have "\<exists>M. row_build_mat (int k + 2) p q = Inr M \<and> shaped (k + 2) (k + 2) M \<and> Q (k + 2) M"
    by (rule row_build_mat_induct[where Q=Q, OF base step])
  then show ?thesis unfolding e .
qed

lemma base_sym: "centrally_symmetric 2 [[p, 1 - p], [1 - p, p::real]]"
  unfolding centrally_symmetric_def
proof (intro allI impI)
  fix i j :: nat assume "i < 2" "j < 2"
  then have "i = 0 \<or> i = 1" "j = 0 \<or> j = 1" by auto
  then show "[[p, 1 - p], [1 - p, p]] ! i ! j = [[p, 1 - p], [1 - p, p]] ! (2 - 1 - i) ! (2 - 1 - j)"
    by auto
qed

lemma step_sym:
  assumes m: "2 \<le> m" and T: "centrally_symmetric m T"
    and M: "\<forall>i<Suc m. \<forall>j<Suc m. M ! i ! j = rouw_entry p p m T i j"
  shows "centrally_symmetric (Suc m) M"
  unfolding centrally_symmetric_def
proof (intro allI impI)
  fix i j assume ij: "i < Suc m" "j < Suc m"
  have T': "\<forall>i<m. \<forall>j<m. T ! i ! j = T ! (m - 1 - i) ! (m - 1 - j)"
    using T unfolding centrally_symmetric_def .
  have m1: "1 \<le> m" using m by simp
  have a: "M ! (m - i) ! (m - j) = rouw_entry p p m T (m - i) (m - j)"
    by (rule M[rule_format]) (use ij in simp_all)
  have b: "M ! i ! j = rouw_entry p p m T i j"
    by (rule M[rule_format]) (use ij in simp_all)
  have c: "rouw_entry p p m T (m - i) (m - j) = rouw_entry p p m T i j"
    by (rule rouw_entry_sym[OF m1 T' ij])
  have d: "Suc m - 1 - i = m - i" "Suc m - 1 - j = m - j" by simp_all
  show "M ! i ! j = M ! (Suc m - 1 - i) ! (Suc m - 1 - j)"
    unfolding d a b c ..
qed

lemma row_build_mat_symmetric:
  assumes n: "2 \<le> n"
  shows "\<exists>M. row_build_mat n p p = Inr M \<and> shaped (nat n) (nat n) M \<and> centrally_symmetric (nat n) M"
  using n base_sym
proof (rule row_build_mat_ge2[where Q=centrally_symmetric])
  fix m T M
  assume "2 \<le> m" "centrally_symmetric m T"
    "\<forall>i<Suc m. \<forall>j<Suc m. M ! i ! j = rouw_entry p p m T i j"
  then show "centrally_symmetric (Suc m) M" by (rule step_sym)
qed

lemma base_sto:
  assumes p: "0 \<le> p" "p \<le> 1" and q: "0 \<le> q" "q \<le> (1::real)"
  shows "sums_nonneg 2 [[p, 1 - p], [1 - q, q]]"
proof -
  have "(\<Sum>j<2. [[p, 1 - p], [1 - q, q]] ! i ! j) = 1" if "i < 2" for i :: nat
  proof -
    have "i = 0 \<or> i = 1" using that by auto
    moreover have "(\<Sum>j<2. [[p, 1 - p], [1 - q, q]] ! 0 ! j) = 1"
      by (simp add: numeral_2_eq_2)
    moreover have "(\<Sum>j<2. [[p, 1 - p], [1 - q, q]] ! 1 ! j) = 1"
      by (simp add: numeral_2_eq_2)
    ultimately show ?thesis by blast
  qed
  moreover have "0 \<le> [[p, 1 - p], [1 - q, q]] ! i ! j" if "i < 2" "j < 2" for i j :: nat
  proof -
    have "i = 0 \<or> i = 1" "j = 0 \<or> j = 1" using that by auto
    then show ?thesis using p q by auto
  qed
  ultimately show ?thesis
    unfolding sums_nonneg_def row_sums_one_def by blast
qed

lemma step_sto:
  assumes p: "0 \<le> p" "p \<le> 1" and q: "0 \<le> q" "q \<le> (1::real)"
    and m: "2 \<le> m" and T: "sums_nonneg m T"
    and M: "\<forall>i<Suc m. \<forall>j<Suc m. M ! i ! j = rouw_entry p q m T i j"
  shows "sums_nonneg (Suc m) M"
proof -
  have T1: "row_sums_one m T" and T2: "\<forall>i<m. \<forall>j<m. 0 \<le> T ! i ! j"
    using T unfolding sums_nonneg_def by blast+
  have "(\<Sum>j<Suc m. M ! i ! j) = 1" if i: "i < Suc m" for i
  proof -
    have "(\<Sum>j<Suc m. M ! i ! j) = (\<Sum>j<Suc m. rouw_entry p q m T i j)"
      by (rule sum.cong[OF refl]) (use M[rule_format, OF i] in simp)
    also have "\<dots> = 1" by (rule rouw_row_sums[OF m T1 i])
    finally show ?thesis .
  qed
  moreover have "0 \<le> M ! i ! j" if ij: "i < Suc m" "j < Suc m" for i j
    unfolding M[rule_format, OF ij] by (rule rouw_entry_nonneg[OF p q T2 ij])
  ultimately show ?thesis
    unfolding sums_nonneg_def row_sums_one_def by blast
qed

lemma row_build_mat_stochastic:
  assumes n: "2 \<le> n" and p: "0 \<le> p" "p \<le> 1" and q: "0 \<le> q" "q \<le> 1"
  shows "\<exists>M. row_build_mat n p q = Inr M \<and> shaped (nat n) (nat n) M \<and> sums_nonneg (nat n) M"
  using n base_sto[OF p q]
proof (rule row_build_mat_ge2[where Q=sums_nonneg])
  fix m T M
  assume "2 \<le> m" "sums_nonneg m T"
    "\<forall>i<Suc m. \<forall>j<Suc m. M ! i ! j = rouw_entry p q m T i j"
  then show "sums_nonneg (Suc m) M" by (rule step_sto[OF p q])
qed

lemma rouwenhorst_stochastic:
  assumes "2 \<le> n" "\<bar>rho\<bar> < 1"
  shows "\<exists>mc. rouwenhorst n ybar sigma rho = Inr mc \<and> row_stochastic (nat n) (P mc)"
proof -
  have p: "0 \<le> (1 + rho) / 2" "(1 + rho) / 2 \<le> 1" using assms(2) by simp_all
  obtain M where M: "row_build_mat n ((1 + rho) / 2) ((1 + rho) / 2) = Inr M"
      "shaped (nat n) (nat n) M" "row_sums_one (nat n) M" "\<forall>i<nat n. \<forall>j<nat n. 0 \<le> M ! i ! j"
    using row_build_mat_stochastic[OF assms(1) p p] unfolding sums_nonneg_def by blast
  have "row_stochastic (nat n) M"
    by (rule row_stochasticI[OF M(2)]) (use M(3,4) in \<open>auto simp: row_sums_one_def\<close>)
  moreover obtain bar where "rouwenhorst n ybar sigma rho = Inr \<lparr>P = M, state_values = bar\<rparr>"
    using rouwenhorst_of_row_build_mat[OF assms M(1), where ybar=ybar and sigma=sigma] by blast
  ultimately show ?thesis by simp
qed

lemma tauchen_stochastic:
  assumes n: "2 \<le> n" and rho: "\<bar>rho\<bar> < 1" and m: "0 < m" and s: "0 < sigma_u" and e: "erfc_like erfc"
  shows "\<exists>mc. tauchen erfc rho sigma_u b m n = Returns mc \<and> row_stochastic (nat n) (P mc)"
proof -
  obtain mc where mc: "tauchen erfc rho sigma_u b m n = Returns mc"
    using tauchen_valid_Returns[OF n rho, where sigma_u=sigma_u and erfc=erfc and b=b and m=m] s by blast
  obtain x where x: "tauchen_x rho sigma_u m n = Inr x"
    using mc by (rule tauchen_ReturnsE)
  let ?h = "tauchen_half_step rho sigma_u m n"
  have ent: "shaped (nat n) (nat n) (P mc)"
      "\<And>i j. i < nat n \<Longrightarrow> j < nat n \<Longrightarrow> P mc ! i ! j = tauchen_entry erfc x (nat n) rho sigma_u ?h i j"
    using tauchen_Returns_entries[OF mc x] by auto
  have h: "0 \<le> ?h" by (rule tauchen_half_step_nonneg[OF n _ rho]) (use m in simp)
  have "row_stochastic (nat n) (P mc)"
  proof (rule row_stochasticI[OF ent(1)])
    fix i assume i: "i < nat n"
    have "(\<Sum>j<nat n. P mc ! i ! j) = (\<Sum>j<nat n. tauchen_entry erfc x (nat n) rho sigma_u ?h i j)"
      by (rule sum.cong) (use ent(2) i in auto)
    also have "\<dots> = 1"
      by (rule tauchen_entry_row_sum) (use n tauchen_cell_edges[OF n x] in auto)
    finally show "(\<Sum>j<nat n. P mc ! i ! j) = 1" .
  next
    fix i j assume "i < nat n" "j < nat n"
    then show "0 \<le> P mc ! i ! j"
      using tauchen_entry_range[OF e h s, of x "nat n" rho i j] ent(2) by simp
  qed
  then show ?thesis using mc by blast
qed

section \<open>A sample complementary error function\<close>

lemma erfc_like_sample: "erfc_like erfc_sample"
proof -
  have mono: "b / (1 + \<bar>b\<bar>) \<ge> a / (1 + \<bar>a\<bar>)" if "a \<le> b" for a b :: real
  proof -
    have "a * (1 + \<bar>b\<bar>) \<le> b * (1 + \<bar>a\<bar>)"
    proof (cases "0 \<le> a")
      case True
      then show ?thesis using that by (simp add: algebra_simps)
    next
      case False
      show ?thesis
      proof (cases "0 \<le> b")
        case True
        have "a * (1 + \<bar>b\<bar>) \<le> 0" using False True by (simp add: mult_le_0_iff)
        moreover have "0 \<le> b * (1 + \<bar>a\<bar>)" using True by simp
        ultimately show ?thesis by linarith
      next
        case F: False
        then show ?thesis using False that by (simp add: algebra_simps)
      qed
    qed
    then show ?thesis by (simp add: field_simps)
  qed
  have rng: "\<bar>v / (1 + \<bar>v\<bar>)\<bar> \<le> 1" for v :: real
    by (simp add: field_simps)
  show ?thesis
    unfolding erfc_like_def erfc_sample_def
  proof (intro conjI allI impI)
    fix a b :: real assume "a \<le> b"
    then show "1 - b / (1 + \<bar>b\<bar>) \<le> 1 - a / (1 + \<bar>a\<bar>)" using mono[of a b] by simp
  next
    fix a :: real show "0 \<le> 1 - a / (1 + \<bar>a\<bar>)" using rng[of a] unfolding abs_le_iff by linarith
  next
    fix a :: real show "1 - a / (1 + \<bar>a\<bar>) \<le> 2" using rng[of a] unfolding abs_le_iff by linarith
  qed
qed

section \<open>Cartesian products: both orders list every combination once\<close>

lemma length_concat_blocks:
  "\<forall>x \<in> set xs. length (f x) = n \<Longrightarrow> length (concat (map f xs)) = n * length xs"
  by (induction xs) simp_all

lemma nth_concat_blocks:
  "\<forall>x \<in> set xs. length (f x) = n \<Longrightarrow> k < n * length xs \<Longrightarrow>
   concat (map f xs) ! k = f (xs ! (k div n)) ! (k mod n)"
proof (induction xs arbitrary: k)
  case Nil
  then show ?case by simp
next
  case (Cons x xs)
  have n: "0 < n" using Cons.prems(2) by (cases n) simp_all
  show ?case
  proof (cases "k < n")
    case True
    then show ?thesis using Cons.prems by (simp add: nth_append)
  next
    case False
    then have k: "k - n < n * length xs" using Cons.prems(2) by simp
    have d: "k div n = Suc ((k - n) div n)" "k mod n = (k - n) mod n"
      using False n by (simp_all add: le_div_geq le_mod_geq)
    show ?thesis
      using Cons.IH[OF _ k] Cons.prems(1) False by (simp add: nth_append d)
  qed
qed

lemma length_concat_replicate: "length (concat (replicate g xs)) = g * length xs"
  by (induction g) simp_all

lemma nth_concat_replicate:
  "k < g * length xs \<Longrightarrow> concat (replicate g xs) ! k = xs ! (k mod length xs)"
  using nth_concat_blocks[of "replicate g ()" "\<lambda>_. xs" "length xs" k]
  by (simp add: map_replicate_const mult.commute)

lemma concat_replicate_mult:
  "concat (replicate (r * g) xs) = concat (replicate g (concat (replicate r xs)))"
proof (induction g)
  case 0
  then show ?case by simp
next
  case (Suc g)
  have "replicate (r * Suc g) xs = replicate r xs @ replicate (r * g) xs"
    by (simp add: replicate_add[symmetric])
  then show ?case using Suc by simp
qed

lemma sorted_concat_map_replicate:
  "sorted v \<Longrightarrow> sorted (concat (map (replicate n) v))"
  by (induction v) (auto simp: sorted_append)

lemma mset_concat_replicate:
  "mset (concat (replicate n v)) = mset (concat (map (replicate n) v))"
proof (induction n)
  case 0
  have "concat (map (replicate 0) v) = []" by (induction v) simp_all
  then show ?case by simp
next
  case (Suc n)
  have "mset (concat (map (\<lambda>a. a # replicate n a) v)) = mset v + mset (concat (map (replicate n) v))"
    by (induction v) simp_all
  then show ?case using Suc by simp
qed

lemma sort_tiled:
  assumes "sorted v"
  shows "sort (concat (replicate n v)) = concat (map (replicate n) v)"
  by (rule properties_for_sort[OF mset_concat_replicate[symmetric] sorted_concat_map_replicate[OF assms]])

lemma prod_list_split:
  "i < length gs \<Longrightarrow> prod_list (take i gs) * gs ! i * prod_list (drop (Suc i) gs) = prod_list (gs :: nat list)"
proof -
  assume "i < length gs"
  then have "gs = take i gs @ gs ! i # drop (Suc i) gs" by (rule id_take_nth_drop)
  then have "prod_list gs = prod_list (take i gs @ gs ! i # drop (Suc i) gs)" by simp
  then show ?thesis by (simp add: mult.assoc)
qed

lemma length_col_major_column:
  assumes "i < length V"
  shows "length (col_major_column V i) = prod_list (map length V)"
proof -
  let ?gs = "map length V"
  have sp: "prod_list (take i ?gs) * ?gs ! i * prod_list (drop (Suc i) ?gs) = prod_list ?gs"
    by (rule prod_list_split) (use assms in simp)
  have gi: "?gs ! i = length (V ! i)" using assms by simp
  show ?thesis
  proof (cases "i = 0")
    case True
    then show ?thesis using sp gi
      by (simp add: col_major_column_def Let_def length_concat_replicate mult.commute)
  next
    case False
    then show ?thesis using sp gi
      by (simp add: col_major_column_def Let_def length_concat_replicate mult_ac)
  qed
qed

lemma col_major_column_snoc_old:
  assumes "i < length V"
  shows "col_major_column (V @ [v]) i = concat (replicate (length v) (col_major_column V i))"
proof -
  let ?gs = "map length V"
  have d: "drop (Suc i) (?gs @ [length v]) = drop (Suc i) ?gs @ [length v]"
    using assms by simp
  have t: "take i (?gs @ [length v]) = take i ?gs" using assms by simp
  have n: "(V @ [v]) ! i = V ! i" using assms by (simp add: nth_append)
  have p: "prod_list (drop (Suc i) ?gs @ [length v]) = prod_list (drop (Suc i) ?gs) * length v"
    by simp
  show ?thesis
    unfolding col_major_column_def Let_def map_append list.map Suc_eq_plus1[symmetric] d t n p
      concat_replicate_mult by (rule if_distrib[symmetric])
qed

lemma concat_map_singletons: "concat (map (replicate (Suc 0)) v) = v"
  by (induction v) simp_all

lemma col_major_column_snoc_new:
  assumes "sorted v"
  shows "col_major_column (V @ [v]) (length V) = concat (map (replicate (prod_list (map length V))) v)"
proof (cases "V = []")
  case True
  then show ?thesis
    by (simp add: col_major_column_def Let_def concat_map_singletons)
next
  case False
  then have "length V \<noteq> 0" by simp
  then show ?thesis
    by (simp add: col_major_column_def Let_def sort_tiled[OF assms])
qed

lemma length_col_major_rows: "length (col_major_rows V) = prod_list (map length V)"
  by (simp add: col_major_rows_def Let_def)

lemma col_major_rows_nth:
  "k < prod_list (map length V) \<Longrightarrow>
   col_major_rows V ! k = map (\<lambda>i. col_major_column V i ! k) [0..<length V]"
  by (simp add: col_major_rows_def Let_def)

lemma col_major_rows_snoc:
  assumes "sorted v"
  shows "col_major_rows (V @ [v]) = snoc_rows (col_major_rows V) v"
proof (rule nth_equalityI)
  let ?n = "prod_list (map length V)"
  have bl: "\<forall>a \<in> set v. length (map (\<lambda>r. r @ [a]) (col_major_rows V)) = ?n"
    by (simp add: length_col_major_rows)
  show len: "length (col_major_rows (V @ [v])) = length (snoc_rows (col_major_rows V) v)"
    unfolding snoc_rows_def length_concat_blocks[OF bl] by (simp add: length_col_major_rows)
  fix k assume "k < length (col_major_rows (V @ [v]))"
  then have k: "k < ?n * length v" by (simp add: length_col_major_rows)
  then have n0: "0 < ?n" by (cases "?n") simp_all
  have kd: "k div ?n < length v" using k n0 by (simp add: less_mult_imp_div_less mult.commute)
  have km: "k mod ?n < ?n" using n0 by simp
  have old: "col_major_column (V @ [v]) i ! k = col_major_column V i ! (k mod ?n)" if "i < length V" for i
  proof -
    have "k < length v * length (col_major_column V i)"
      using k by (simp add: length_col_major_column[OF that] mult.commute)
    then show ?thesis
      unfolding col_major_column_snoc_old[OF that]
      by (simp add: nth_concat_replicate length_col_major_column[OF that])
  qed
  have new: "col_major_column (V @ [v]) (length V) ! k = v ! (k div ?n)"
    unfolding col_major_column_snoc_new[OF assms]
    using nth_concat_blocks[of v "replicate ?n" ?n k] k kd km by simp
  have "col_major_rows (V @ [v]) ! k = map (\<lambda>i. col_major_column (V @ [v]) i ! k) [0..<Suc (length V)]"
    using k by (simp add: col_major_rows_nth)
  also have "\<dots> = map (\<lambda>i. col_major_column V i ! (k mod ?n)) [0..<length V] @ [v ! (k div ?n)]"
    using old new by simp
  also have "\<dots> = col_major_rows V ! (k mod ?n) @ [v ! (k div ?n)]"
    using km by (simp add: col_major_rows_nth)
  also have "\<dots> = snoc_rows (col_major_rows V) v ! k"
    unfolding snoc_rows_def
    using nth_concat_blocks[OF bl k] kd km by (simp add: length_col_major_rows)
  finally show "col_major_rows (V @ [v]) ! k = snoc_rows (col_major_rows V) v ! k" .
qed

lemma combinations_Nil: "combinations [] = {[]}"
  by (auto simp: combinations_def)

lemma combinations_Cons:
  "combinations (v # vs) = {a # r | a r. a \<in> set v \<and> r \<in> combinations vs}"
proof (intro set_eqI iffI)
  fix x assume "x \<in> combinations (v # vs)"
  then have l: "length x = Suc (length vs)" and m: "\<forall>i<Suc (length vs). x ! i \<in> set ((v # vs) ! i)"
    by (simp_all add: combinations_def)
  from l obtain a r where x: "x = a # r" by (cases x) auto
  have "a \<in> set v" using m[rule_format, of 0] x by simp
  moreover have "r ! i \<in> set (vs ! i)" if "i < length vs" for i
    using m[rule_format, of "Suc i"] x that by simp
  ultimately show "x \<in> {a # r | a r. a \<in> set v \<and> r \<in> combinations vs}"
    using l x by (auto simp: combinations_def)
next
  fix x assume "x \<in> {a # r | a r. a \<in> set v \<and> r \<in> combinations vs}"
  then obtain a r where x: "x = a # r" "a \<in> set v" "r \<in> combinations vs" by blast
  have "x ! i \<in> set ((v # vs) ! i)" if "i < Suc (length vs)" for i
    using x that by (cases i) (auto simp: combinations_def)
  then show "x \<in> combinations (v # vs)" using x by (simp add: combinations_def)
qed

lemma combinations_snoc:
  "combinations (V @ [v]) = {r @ [a] | r a. r \<in> combinations V \<and> a \<in> set v}"
proof (intro set_eqI iffI)
  fix x assume "x \<in> combinations (V @ [v])"
  then have l: "length x = Suc (length V)" and m: "\<forall>i<Suc (length V). x ! i \<in> set ((V @ [v]) ! i)"
    by (simp_all add: combinations_def)
  from l obtain r a where x: "x = r @ [a]" by (cases x rule: rev_cases) auto
  have lr: "length r = length V" using l x by simp
  have "a \<in> set v" using m[rule_format, of "length V"] x lr by (simp add: nth_append)
  moreover have "r ! i \<in> set (V ! i)" if "i < length V" for i
    using m[rule_format, of i] x that lr by (simp add: nth_append)
  ultimately show "x \<in> {r @ [a] | r a. r \<in> combinations V \<and> a \<in> set v}"
    using lr x by (auto simp: combinations_def)
next
  fix x assume "x \<in> {r @ [a] | r a. r \<in> combinations V \<and> a \<in> set v}"
  then obtain r a where x: "x = r @ [a]" "r \<in> combinations V" "a \<in> set v" by blast
  have lr: "length r = length V" using x(2) by (simp add: combinations_def)
  have "x ! i \<in> set ((V @ [v]) ! i)" if "i < Suc (length V)" for i
  proof (cases "i < length V")
    case True
    then show ?thesis using x lr by (simp add: nth_append combinations_def)
  next
    case False
    then have "i = length V" using that by simp
    then show ?thesis using x lr by (simp add: nth_append)
  qed
  then show "x \<in> combinations (V @ [v])" using x lr by (simp add: combinations_def)
qed

lemma length_row_major_rows: "length (row_major_rows V) = prod_list (map length V)"
proof (induction V)
  case Nil
  then show ?case by simp
next
  case (Cons v vs)
  have "length (concat (map (\<lambda>a. map (\<lambda>r. a # r) (row_major_rows vs)) v))
        = length (row_major_rows vs) * length v"
    by (rule length_concat_blocks) simp
  then show ?case using Cons by simp
qed

lemma set_row_major_rows: "set (row_major_rows V) = combinations V"
proof (induction V)
  case Nil
  then show ?case by (simp add: combinations_Nil)
next
  case (Cons v vs)
  then show ?case unfolding combinations_Cons by auto
qed

lemma distinct_cons_rows:
  "distinct rows \<Longrightarrow> distinct v \<Longrightarrow> distinct (concat (map (\<lambda>a. map (\<lambda>r. a # r) rows) v))"
proof (induction v)
  case Nil
  then show ?case by simp
next
  case (Cons a v)
  have "distinct (map (\<lambda>r. a # r) rows)"
    using Cons.prems(1) by (simp add: distinct_map inj_on_def)
  moreover have "set (map (\<lambda>r. a # r) rows) \<inter> set (concat (map (\<lambda>a. map (\<lambda>r. a # r) rows) v)) = {}"
    using Cons.prems(2) by auto
  ultimately show ?case using Cons by simp
qed

lemma distinct_row_major_rows: "\<forall>v \<in> set V. distinct v \<Longrightarrow> distinct (row_major_rows V)"
  by (induction V) (simp_all add: distinct_cons_rows)

lemma set_snoc_rows: "set (snoc_rows rows v) = {r @ [a] | r a. r \<in> set rows \<and> a \<in> set v}"
  unfolding snoc_rows_def by auto

lemma distinct_snoc_rows:
  "distinct rows \<Longrightarrow> distinct v \<Longrightarrow> distinct (snoc_rows rows v)"
  unfolding snoc_rows_def
proof (induction v)
  case Nil
  then show ?case by simp
next
  case (Cons a v)
  have "distinct (map (\<lambda>r. r @ [a]) rows)"
    using Cons.prems(1) by (simp add: distinct_map inj_on_def)
  moreover have "set (map (\<lambda>r. r @ [a]) rows) \<inter> set (concat (map (\<lambda>a. map (\<lambda>r. r @ [a]) rows) v)) = {}"
    using Cons.prems(2) by auto
  ultimately show ?case using Cons by simp
qed

lemma col_major_rows_Nil: "col_major_rows [] = [[]]"
  by (simp add: col_major_rows_def)

lemma set_col_major_rows: "\<forall>v \<in> set V. sorted v \<Longrightarrow> set (col_major_rows V) = combinations V"
proof (induction V rule: rev_induct)
  case Nil
  then show ?case by (simp add: col_major_rows_Nil combinations_Nil)
next
  case (snoc v V)
  have "sorted v" using snoc.prems by simp
  then show ?case
    using snoc by (simp add: col_major_rows_snoc set_snoc_rows combinations_snoc)
qed

lemma distinct_col_major_rows:
  "\<forall>v \<in> set V. sorted v \<and> distinct v \<Longrightarrow> distinct (col_major_rows V)"
proof (induction V rule: rev_induct)
  case Nil
  then show ?case by (simp add: col_major_rows_Nil)
next
  case (snoc v V)
  have "sorted v" "distinct v" using snoc.prems by simp_all
  then show ?case
    using snoc by (simp add: col_major_rows_snoc distinct_snoc_rows)
qed

lemma cartesian_product_example:
  "cartesian_product [[1, 2], [10, 20, 30]] True =
     Inr [[1, 10], [1, 20], [1, 30], [2, 10], [2, 20], [2, 30]]"
  "cartesian_product [[1, 2], [10, 20, 30]] False =
     Inr [[1, 10], [2, 10], [1, 20], [2, 20], [1, 30], [2, 30]]"
  by (simp_all add: cartesian_product_def col_major_rows_def col_major_column_def Let_def
      upt_rec numeral_eq_Suc)

section \<open>A run of the discretizer on the sample collaborators\<close>

lemma upt_3: "[0..<3] = [0, 1, 2]" "[0..<2] = [0, 1]" "[0..<1] = [0]"
  by (simp_all add: upt_rec numeral_eq_Suc)

lemma sample_solve: "solve_discrete_lyapunov sample_env [[0]] [[1]] = Inr [[1]]"
  by (simp add: sample_env_def)

lemma sample_grids: "build_grids [2] [3] [0] = Inr [[- 2, 0, 2]]"
  by (simp add: linspace_def upt_3)

lemma sample_states: "cartesian_product [[- 2, 0, 2]] True = Inr [[- 2], [0], [2]]"
  by (simp add: cartesian_product_def)

lemma sample_start: "argmin (map (\<lambda>row. sum_list (map (\<lambda>s. s\<^sup>2) row)) [[- 2], [0], [2::real]]) = Inr (Suc 0)"
  by (simp add: argmin_def)

lemma sample_nearest:
  "nearest [[- 2], [0], [2]] [2] = Inr 2"
  "nearest [[- 2], [0], [2]] [- 2] = Inr 0"
  by (simp_all add: nearest_def sq_dists_def argmin_def)

lemma sample_randn:
  "randn_vec (rng_randn sample_env) (Suc 0) 0 = ([2], Suc 0)"
  "randn_vec (rng_randn sample_env) (Suc 0) (Suc 0) = ([- 2], 2)"
  by (simp_all add: sample_env_def sample_draw_def)

lemma sample_step_0:
  "sim_step (rng_randn sample_env) [[0]] [[1]] [[- 2], [0], [2]] 0 0
     \<lparr>st_x0 = [0], st_ind_i = Suc 0, st_Pi = [[0, 0, 0], [0, 0, 0], [0, 0, 0]], st_Xvec = [[0, 0]], st_gen = 0\<rparr>
   = \<lparr>st_x0 = [2], st_ind_i = 2, st_Pi = [[0, 0, 0], [0, 0, 0], [0, 0, 0]], st_Xvec = [[0, 0]], st_gen = Suc 0\<rparr>"
  by (simp add: sim_step_def sample_randn sample_nearest matvec_def vadd_def Let_def del: randn_vec.simps)

lemma sample_step_1:
  "sim_step (rng_randn sample_env) [[0]] [[1]] [[- 2], [0], [2]] 0 (Suc 0)
     \<lparr>st_x0 = [2], st_ind_i = 2, st_Pi = [[0, 0, 0], [0, 0, 0], [0, 0, 0]], st_Xvec = [[0, 0]], st_gen = Suc 0\<rparr>
   = \<lparr>st_x0 = [- 2], st_ind_i = 0, st_Pi = [[0, 0, 0], [0, 0, 0], [1, 0, 0]], st_Xvec = [[0, - 2]], st_gen = 2\<rparr>"
  by (simp add: sim_step_def sample_randn sample_nearest matvec_def vadd_def Let_def del: randn_vec.simps)

lemma sample_run_sim:
  "run_sim sample_env [[0]] [[1]] (zeros 3 3) (zeros 1 2) [[- 2], [0], [2]] 2 0 0
   = (Inr ([[0, 0, 0], [0, 0, 0], [1, 0, 0]], [[0, - 2]]), 2)"
proof -
  have z: "zeros 3 3 = [[0, 0, 0], [0, 0, 0], [0, 0, 0]]" "zeros 1 2 = [[0, 0]]"
    by (simp_all add: zeros_def numeral_eq_Suc)
  have s: "rng_seed sample_env 0 = 0" by (simp add: sample_env_def)
  have l: "[0..<nat (2 + 0)] = [0, Suc 0]" by (simp add: upt_3)
  have r: "replicate (length [[0::real]]) (0::real) = [0]" by simp
  show ?thesis
    unfolding run_sim_def Let_def sample_start z s l r
    by (simp add: sample_step_0 sample_step_1)
qed

lemma sample_finish:
  "kept_states [[0, 0, 0], [0, 0, 0], [1, 0, 0]] = [0]"
  "normalize (prune [[0, 0, 0], [0, 0, 0], [1, 0, 0]]) = [[NaN]]"
proof -
  show k: "kept_states [[0, 0, 0], [0, 0, 0], [1, 0, 0]] = [0]"
    by (simp add: kept_states_def column_sums_def upt_3)
  show "normalize (prune [[0, 0, 0], [0, 0, 0], [1, 0, 0]]) = [[NaN]]"
    unfolding prune_def Let_def k by (simp add: normalize_def np_divide_def)
qed

lemma sample_run:
  "discrete_var sample_env [[0]] [[1]] (Some [3]) 2 0 2 0 True return_sim g =
     (Returns \<lparr>res_Pi = [[NaN]], res_S = [[- 2]],
               res_Xvec = (if return_sim then Some [[0, - 2]] else None)\<rparr>, 2)"
proof -
  have ub: "map (\<lambda>s. 2 * s) (map sqrt (np_diagonal [[1]])) = [2]"
    by (simp add: np_diagonal_def)
  have v: "\<not> (\<exists>v \<in> set (np_diagonal [[1]]). v < 0)"
    by (simp add: np_diagonal_def)
  have m: "[0..<length [[0::real]]] = [0]" by simp
  have n: "prod_list [3::int] = 3" by simp
  have c: "sqrtm sample_env [[1]] = [[1]]" by (simp add: sample_env_def)
  have z: "zeros (nat 3) (nat 3) = zeros 3 3" "zeros (length [[0::real]]) (nat 2) = zeros 1 2"
    by simp_all
  show ?thesis
    unfolding discrete_var_def Let_def option.case sample_solve sum.case ub m n c z
      sample_grids sample_states sample_run_sim prod.case
    using v by (simp add: sample_finish)
qed

section \<open>The nearest grid point\<close>

lemma argmin_scan_first:
  assumes "i = length pre" "best_i < i" "pre ! best_i = best_v"
    and "\<forall>j<i. best_v \<le> pre ! j" and "\<forall>j<best_i. best_v < pre ! j"
  shows "argmin_scan best_i best_v i vs < length (pre @ vs) \<and>
         (\<forall>j<length (pre @ vs). (pre @ vs) ! argmin_scan best_i best_v i vs \<le> (pre @ vs) ! j) \<and>
         (\<forall>j<argmin_scan best_i best_v i vs.
             (pre @ vs) ! argmin_scan best_i best_v i vs < (pre @ vs) ! j)"
  using assms
proof (induction vs arbitrary: pre best_i best_v i)
  case Nil
  then show ?case by simp
next
  case (Cons v vs)
  let ?pre = "pre @ [v]"
  have e: "?pre @ vs = pre @ v # vs" by simp
  show ?case
  proof (cases "v < best_v")
    case True
    have "argmin_scan i v (Suc i) vs < length (?pre @ vs) \<and>
         (\<forall>j<length (?pre @ vs). (?pre @ vs) ! argmin_scan i v (Suc i) vs \<le> (?pre @ vs) ! j) \<and>
         (\<forall>j<argmin_scan i v (Suc i) vs.
             (?pre @ vs) ! argmin_scan i v (Suc i) vs < (?pre @ vs) ! j)"
    proof (rule Cons.IH)
      show "Suc i = length ?pre" using Cons.prems(1) by simp
      show "i < Suc i" by simp
      show "?pre ! i = v" using Cons.prems(1) by simp
      show "\<forall>j<Suc i. v \<le> ?pre ! j"
        using Cons.prems(1,4) True by (auto simp: nth_append less_Suc_eq intro: less_imp_le order_trans)
      show "\<forall>j<i. v < ?pre ! j"
        using Cons.prems(1,4) True by (auto simp: nth_append intro: less_le_trans)
    qed
    then show ?thesis using True unfolding e by simp
  next
    case False
    have "argmin_scan best_i best_v (Suc i) vs < length (?pre @ vs) \<and>
         (\<forall>j<length (?pre @ vs). (?pre @ vs) ! argmin_scan best_i best_v (Suc i) vs \<le> (?pre @ vs) ! j) \<and>
         (\<forall>j<argmin_scan best_i best_v (Suc i) vs.
             (?pre @ vs) ! argmin_scan best_i best_v (Suc i) vs < (?pre @ vs) ! j)"
    proof (rule Cons.IH)
      show "Suc i = length ?pre" using Cons.prems(1) by simp
      show "best_i < Suc i" using Cons.prems(2) by simp
      show "?pre ! best_i = best_v" using Cons.prems(1,2,3) by (simp add: nth_append)
      show "\<forall>j<Suc i. best_v \<le> ?pre ! j"
        using Cons.prems(1,4) False by (auto simp: nth_append less_Suc_eq)
      show "\<forall>j<best_i. best_v < ?pre ! j"
        using Cons.prems(1,2,5) by (auto simp: nth_append)
    qed
    then show ?thesis using False unfolding e by simp
  qed
qed

lemma argmin_first:
  assumes "argmin d = Inr k"
  shows "k < length d \<and> (\<forall>j<length d. d ! k \<le> d ! j) \<and> (\<forall>j<k. d ! k < d ! j)"
proof (cases d)
  case Nil
  then show ?thesis using assms by (simp add: argmin_def)
next
  case (Cons v vs)
  then have k: "k = argmin_scan 0 v 1 vs" using assms by (simp add: argmin_def)
  have "argmin_scan 0 v 1 vs < length ([v] @ vs) \<and>
         (\<forall>j<length ([v] @ vs). ([v] @ vs) ! argmin_scan 0 v 1 vs \<le> ([v] @ vs) ! j) \<and>
         (\<forall>j<argmin_scan 0 v 1 vs. ([v] @ vs) ! argmin_scan 0 v 1 vs < ([v] @ vs) ! j)"
    by (rule argmin_scan_first) simp_all
  then show ?thesis unfolding k Cons by simp
qed

lemma argmin_nonempty: "d \<noteq> [] \<Longrightarrow> \<exists>k. argmin d = Inr k"
  by (cases d) (simp_all add: argmin_def)

lemma nearest_first:
  assumes "nearest S x = Inr k"
  shows "k < length S \<and>
         (\<forall>j<length S. sq_dists S x ! k \<le> sq_dists S x ! j) \<and>
         (\<forall>j<k. sq_dists S x ! k < sq_dists S x ! j)"
proof -
  have len: "length (sq_dists S x) = length S" by (simp add: sq_dists_def)
  from argmin_first[OF assms[unfolded nearest_def]] show ?thesis unfolding len .
qed

section \<open>The generator\<close>

lemma randn_vec_gen: "snd (randn_vec randn k g) = ((\<lambda>a. snd (randn a)) ^^ k) g"
proof -
  define f where "f = (\<lambda>a. snd (randn a))"
  have "snd (randn_vec randn k g) = (f ^^ k) g"
  proof (induction k arbitrary: g)
    case 0
    then show ?case by simp
  next
    case (Suc k)
    have "snd (randn_vec randn (Suc k) g) = snd (randn_vec randn k (f g))"
      by (simp add: case_prod_unfold Let_def f_def)
    also have "\<dots> = (f ^^ k) (f g)" by (rule Suc)
    also have "\<dots> = (f ^^ Suc k) g" by (simp only: funpow_Suc_right comp_apply)
    finally show ?case .
  qed
  then show ?thesis unfolding f_def .
qed

lemma sim_step_gen:
  "st_gen (sim_step randn A C S burn_in t st) = ((\<lambda>a. snd (randn a)) ^^ length A) (st_gen st)"
  using randn_vec_gen[of randn "length A" "st_gen st"]
  by (simp add: sim_step_def Let_def case_prod_unfold)

lemma fold_sim_step_gen:
  "st_gen (fold (sim_step randn A C S burn_in) ts st) =
     ((\<lambda>a. snd (randn a)) ^^ (length A * length ts)) (st_gen st)"
proof -
  define f where "f = (\<lambda>a. snd (randn a))"
  have step: "st_gen (sim_step randn A C S burn_in t st) = (f ^^ length A) (st_gen st)" for t st
    unfolding f_def by (rule sim_step_gen)
  have "st_gen (fold (sim_step randn A C S burn_in) ts st) = (f ^^ (length A * length ts)) (st_gen st)"
  proof (induction ts arbitrary: st)
    case Nil
    then show ?case by simp
  next
    case (Cons t ts)
    have "st_gen (fold (sim_step randn A C S burn_in) (t # ts) st)
        = (f ^^ (length A * length ts)) ((f ^^ length A) (st_gen st))"
      by (simp only: fold_simps Cons.IH step)
    also have "\<dots> = (f ^^ (length A * length ts + length A)) (st_gen st)"
      by (simp only: funpow_add comp_apply)
    also have "length A * length ts + length A = length A * length (t # ts)" by simp
    finally show ?case .
  qed
  then show ?thesis unfolding f_def .
qed

lemma run_sim_gen:
  assumes "run_sim env A C Pi0 Xvec0 S sim_length burn_in seed = (Inr res, g')"
  shows "g' = ((\<lambda>a. snd (rng_randn env a)) ^^ (length A * nat (sim_length + burn_in))) (rng_seed env seed)"
  using assms
  by (auto simp: run_sim_def Let_def fold_sim_step_gen split: sum.splits)

lemma discrete_var_ReturnsE:
  assumes "discrete_var env A Omega grid_sizes std_devs seed sim_length burn_in row_major return_sim g
           = (Returns r, g')"
  obtains S Pi1 Xvec1 n where
    "0 \<le> n" "0 \<le> sim_length"
    "n = prod_list (case grid_sizes of None \<Rightarrow> replicate (length A) 10 | Some l \<Rightarrow> l)"
    "run_sim env A (sqrtm env Omega) (zeros (nat n) (nat n)) (zeros (length A) (nat sim_length)) S
       sim_length burn_in seed = (Inr (Pi1, Xvec1), g')"
    "r = \<lparr>res_Pi = normalize (prune Pi1), res_S = map (\<lambda>i. S ! i) (kept_states Pi1),
          res_Xvec = (if return_sim then Some Xvec1 else None)\<rparr>"
  using assms unfolding discrete_var_def Let_def
  by (simp split: sum.splits prod.splits if_splits)

lemma discrete_var_fst:
  "fst (discrete_var env A Omega grid_sizes std_devs seed sim_length burn_in row_major return_sim g1) =
   fst (discrete_var env A Omega grid_sizes std_devs seed sim_length burn_in row_major return_sim g2)"
  unfolding discrete_var_def Let_def
  by (simp split: sum.split prod.split)

lemma sample_tie:
  "sq_dists [[- 2], [0], [2]] [1] = [9, 1, 1]"
  "nearest [[- 2], [0], [2]] [1] = Inr 1"
  by (simp_all add: nearest_def sq_dists_def argmin_def)

section \<open>The counts of the simulation\<close>

lemma total_zeros: "total (zeros r c) = 0"
  by (simp add: total_def zeros_def sum_list_replicate)

lemma sum_list_update_real:
  "k < length xs \<Longrightarrow> sum_list (xs[k := v]) = sum_list xs - xs ! k + (v::real)"
proof (induction xs arbitrary: k)
  case Nil
  then show ?case by simp
next
  case (Cons x xs)
  then show ?case by (cases k) simp_all
qed

lemma length_bump: "length (bump M i j) = length M"
  by (simp add: bump_def)

lemma bump_nth:
  "a < length M \<Longrightarrow> bump M i j ! a = (if a = i then (M ! i)[j := M ! i ! j + 1] else M ! a)"
  by (simp add: bump_def nth_list_update)

lemma nonneg_zeros: "nonneg_entries (zeros r c)"
  by (simp add: nonneg_entries_def zeros_def)

lemma total_bump:
  assumes "i < length M" "j < length (M ! i)"
  shows "total (bump M i j) = total M + 1"
proof -
  have r: "sum_list ((M ! i)[j := M ! i ! j + 1]) = sum_list (M ! i) + 1"
    using assms(2) by (simp add: sum_list_update_real)
  have "map sum_list (M[i := (M ! i)[j := M ! i ! j + 1]]) = (map sum_list M)[i := sum_list (M ! i) + 1]"
    unfolding map_update r ..
  then have "total (bump M i j) = sum_list ((map sum_list M)[i := sum_list (M ! i) + 1])"
    by (simp add: total_def bump_def)
  also have "\<dots> = total M + 1"
    using assms(1) by (simp add: sum_list_update_real total_def)
  finally show ?thesis .
qed

lemma shaped_bump:
  assumes "shaped r c M"
  shows "shaped r c (bump M i j)"
proof (rule shapedI)
  show "length (bump M i j) = r" using assms by (simp add: length_bump shapedD)
  fix a assume a: "a < r"
  then have "a < length M" using assms by (simp add: shapedD)
  then show "length (bump M i j ! a) = c"
    using assms a by (simp add: bump_nth shapedD)
qed

lemma nonneg_bump:
  assumes "nonneg_entries M"
  shows "nonneg_entries (bump M i j)"
  unfolding nonneg_entries_def
proof (intro ballI)
  fix row v assume row: "row \<in> set (bump M i j)" and v: "v \<in> set row"
  from row obtain a where a: "a < length M" "row = bump M i j ! a"
    by (auto simp: in_set_conv_nth length_bump)
  have old: "\<forall>w \<in> set (M ! a). 0 \<le> w"
    using assms nth_mem[OF a(1)] unfolding nonneg_entries_def by blast
  show "0 \<le> v"
  proof (cases "a = i")
    case False
    then show ?thesis using a v old by (simp add: bump_nth)
  next
    case True
    then have r: "row = (M ! i)[j := M ! i ! j + 1]" using a by (simp add: bump_nth)
    from v obtain b where b: "b < length (M ! i)" "v = row ! b"
      unfolding r by (auto simp: in_set_conv_nth)
    have "0 \<le> M ! i ! b" using old True b(1) by simp
    then show ?thesis using b r by (cases "b = j") (simp_all add: nth_list_update)
  qed
qed

lemma nearest_in_range:
  assumes "S \<noteq> []"
  shows "\<exists>j. nearest S x = Inr j \<and> j < length S"
proof -
  have "sq_dists S x \<noteq> []" using assms by (simp add: sq_dists_def)
  then obtain j where j: "nearest S x = Inr j"
    using argmin_nonempty unfolding nearest_def by blast
  with nearest_first[OF j] show ?thesis by blast
qed

text \<open>What one iteration does to the counts and to the index.\<close>

lemma sim_step_Pi:
  "st_Pi (sim_step randn A C S burn_in t st) =
     (if burn_in < int t then bump (st_Pi st) (st_ind_i st) (st_ind_i (sim_step randn A C S burn_in t st))
      else st_Pi st)"
  by (simp add: sim_step_def Let_def case_prod_unfold bump_def)

lemma sim_step_ind:
  assumes "S \<noteq> []"
  shows "st_ind_i (sim_step randn A C S burn_in t st) < length S"
proof -
  obtain z g1 where z: "randn_vec randn (length A) (st_gen st) = (z, g1)" by (cases "randn_vec randn (length A) (st_gen st)")
  obtain j where j: "nearest S (vadd (matvec A (st_x0 st)) (matvec C z)) = Inr j" "j < length S"
    using nearest_in_range[OF assms] by blast
  show ?thesis by (simp add: sim_step_def Let_def z j)
qed

lemma sim_step_counts:
  assumes S: "S \<noteq> []" "length S = n" and ok: "counts_ok n st"
  shows "counts_ok n (sim_step randn A C S burn_in t st)"
    and "total (st_Pi (sim_step randn A C S burn_in t st)) =
           total (st_Pi st) + (if burn_in < int t then 1 else 0)"
proof -
  let ?st = "sim_step randn A C S burn_in t st"
  have sh: "shaped n n (st_Pi st)" and i: "st_ind_i st < n" and nn: "nonneg_entries (st_Pi st)"
    using ok by (simp_all add: counts_ok_def)
  have j: "st_ind_i ?st < n" using sim_step_ind[OF S(1)] S(2) by simp
  have "shaped n n (st_Pi ?st)"
    unfolding sim_step_Pi using sh by (simp add: shaped_bump)
  moreover have "nonneg_entries (st_Pi ?st)"
    unfolding sim_step_Pi using nn by (simp add: nonneg_bump)
  ultimately show "counts_ok n ?st" using j by (simp add: counts_ok_def)
  have "total (bump (st_Pi st) (st_ind_i st) (st_ind_i ?st)) = total (st_Pi st) + 1"
    by (rule total_bump) (use sh i j in \<open>simp_all add: shapedD\<close>)
  then show "total (st_Pi ?st) = total (st_Pi st) + (if burn_in < int t then 1 else 0)"
    by (subst sim_step_Pi) simp
qed

lemma fold_sim_step_counts:
  assumes S: "S \<noteq> []" "length S = n" and ok: "counts_ok n st"
  shows "counts_ok n (fold (sim_step randn A C S burn_in) ts st) \<and>
         total (st_Pi (fold (sim_step randn A C S burn_in) ts st)) =
           total (st_Pi st) + real (length (filter (\<lambda>t. burn_in < int t) ts))"
  using ok
proof (induction ts arbitrary: st)
  case Nil
  then show ?case by simp
next
  case (Cons t ts)
  let ?st = "sim_step randn A C S burn_in t st"
  have ok': "counts_ok n ?st" by (rule sim_step_counts(1)[OF S Cons.prems])
  have tot: "total (st_Pi ?st) = total (st_Pi st) + (if burn_in < int t then 1 else 0)"
    by (rule sim_step_counts(2)[OF S Cons.prems])
  from Cons.IH[OF ok'] tot show ?case by simp
qed

lemma counted_steps:
  assumes "0 \<le> burn_in"
  shows "length (filter (\<lambda>t. burn_in < int t) [0..<k]) = k - Suc (nat burn_in)"
proof (induction k)
  case 0
  then show ?case by simp
next
  case (Suc k)
  have e: "burn_in < int k \<longleftrightarrow> Suc (nat burn_in) \<le> k" using assms by linarith
  show ?case
  proof (cases "burn_in < int k")
    case True
    then have "Suc (nat burn_in) \<le> k" using e by simp
    then show ?thesis using Suc True by simp
  next
    case False
    then have "k - Suc (nat burn_in) = 0" "Suc k - Suc (nat burn_in) = 0" using e by simp_all
    then show ?thesis using Suc False by simp
  qed
qed

lemma run_sim_counts:
  assumes "run_sim env A C (zeros n n) Xvec0 S sim_length burn_in seed = (Inr (Pi1, Xvec1), g')"
    and "length S = n"
  shows "shaped n n Pi1" "nonneg_entries Pi1"
    "total Pi1 = real (length (filter (\<lambda>t. burn_in < int t) [0..<nat (sim_length + burn_in)]))"
proof -
  let ?d = "map (\<lambda>row. sum_list (map (\<lambda>s. s\<^sup>2) row)) S"
  from assms(1) obtain ind_i where a: "argmin ?d = Inr ind_i"
    by (auto simp: run_sim_def Let_def split: sum.splits)
  have i: "ind_i < n" using argmin_first[OF a] assms(2) by simp
  then have S: "S \<noteq> []" using assms(2) by auto
  let ?init = "\<lparr>st_x0 = replicate (length A) 0, st_ind_i = ind_i, st_Pi = zeros n n,
               st_Xvec = Xvec0, st_gen = rng_seed env seed\<rparr>"
  let ?st = "fold (sim_step (rng_randn env) A C S burn_in) [0..<nat (sim_length + burn_in)] ?init"
  have Pi1: "Pi1 = st_Pi ?st"
    using assms(1) a by (simp add: run_sim_def Let_def)
  have ok: "counts_ok n ?init"
    using i by (simp add: counts_ok_def shaped_zeros nonneg_zeros)
  have f: "counts_ok n ?st \<and>
         total (st_Pi ?st) =
           total (st_Pi ?init) + real (length (filter (\<lambda>t. burn_in < int t) [0..<nat (sim_length + burn_in)]))"
    by (rule fold_sim_step_counts[OF S assms(2) ok])
  show "shaped n n Pi1" "nonneg_entries Pi1"
    using f unfolding Pi1 counts_ok_def by blast+
  show "total Pi1 = real (length (filter (\<lambda>t. burn_in < int t) [0..<nat (sim_length + burn_in)]))"
    using f unfolding Pi1 by (simp add: total_zeros)
qed

lemma sim_step_shape_nonneg:
  assumes "shaped n n (st_Pi st)" "nonneg_entries (st_Pi st)"
  shows "shaped n n (st_Pi (sim_step randn A C S burn_in t st))"
    "nonneg_entries (st_Pi (sim_step randn A C S burn_in t st))"
  unfolding sim_step_Pi using assms by (simp_all add: shaped_bump nonneg_bump)

lemma fold_sim_step_shape_nonneg:
  assumes "shaped n n (st_Pi st)" "nonneg_entries (st_Pi st)"
  shows "shaped n n (st_Pi (fold (sim_step randn A C S burn_in) ts st)) \<and>
         nonneg_entries (st_Pi (fold (sim_step randn A C S burn_in) ts st))"
  using assms
proof (induction ts arbitrary: st)
  case Nil
  then show ?case by simp
next
  case (Cons t ts)
  show ?case
    unfolding fold_simps
    by (rule Cons.IH) (rule sim_step_shape_nonneg[OF Cons.prems])+
qed

lemma run_sim_shape_nonneg:
  assumes "run_sim env A C (zeros n n) Xvec0 S sim_length burn_in seed = (Inr (Pi1, Xvec1), g')"
  shows "shaped n n Pi1" "nonneg_entries Pi1"
proof -
  let ?d = "map (\<lambda>row. sum_list (map (\<lambda>s. s\<^sup>2) row)) S"
  from assms(1) obtain ind_i where a: "argmin ?d = Inr ind_i"
    by (auto simp: run_sim_def Let_def split: sum.splits)
  let ?init = "\<lparr>st_x0 = replicate (length A) 0, st_ind_i = ind_i, st_Pi = zeros n n,
               st_Xvec = Xvec0, st_gen = rng_seed env seed\<rparr>"
  let ?fin = "fold (sim_step (rng_randn env) A C S burn_in) [0..<nat (sim_length + burn_in)] ?init"
  have Pi1: "Pi1 = st_Pi ?fin"
    using assms(1) a by (simp add: run_sim_def Let_def)
  have "shaped n n (st_Pi ?fin) \<and> nonneg_entries (st_Pi ?fin)"
    by (rule fold_sim_step_shape_nonneg) (simp_all add: shaped_zeros nonneg_zeros)
  then show "shaped n n Pi1" "nonneg_entries Pi1" unfolding Pi1 by blast+
qed

section \<open>Pruning and normalization\<close>

lemma kept_states_range: "j \<in> set (kept_states M) \<Longrightarrow> j < length M"
  by (simp add: kept_states_def)

lemma length_prune: "length (prune M) = length (kept_states M)"
  by (simp add: prune_def Let_def)

lemma prune_nth:
  "i < length (kept_states M) \<Longrightarrow>
   prune M ! i = map (\<lambda>j. M ! (kept_states M ! i) ! j) (kept_states M)"
  by (simp add: prune_def Let_def)

lemma prune_nonneg:
  assumes "shaped n n M" "nonneg_entries M" "i < length (prune M)"
  shows "\<forall>v \<in> set (prune M ! i). 0 \<le> v"
proof
  fix v assume v: "v \<in> set (prune M ! i)"
  have i: "i < length (kept_states M)" using assms(3) by (simp add: length_prune)
  let ?a = "kept_states M ! i"
  have a: "?a < length M" using i by (intro kept_states_range nth_mem)
  from v obtain j where j: "j \<in> set (kept_states M)" "v = M ! ?a ! j"
    unfolding prune_nth[OF i] by auto
  have "j < length (M ! ?a)" using kept_states_range[OF j(1)] a assms(1) by (simp add: shapedD)
  then have "M ! ?a ! j \<in> set (M ! ?a)" by simp
  moreover have "M ! ?a \<in> set M" using a by simp
  ultimately show "0 \<le> v" using assms(2) j(2) unfolding nonneg_entries_def by blast
qed

lemma normalize_nth:
  "i < length M \<Longrightarrow> normalize M ! i = map (\<lambda>c. np_divide c (sum_list (M ! i))) (M ! i)"
  by (simp add: normalize_def Let_def)

lemma normalize_zero_row:
  assumes "i < length M" "\<forall>v \<in> set (M ! i). 0 \<le> v" "sum_list (M ! i) = 0"
  shows "normalize M ! i = replicate (length (M ! i)) NaN"
proof -
  have z: "\<forall>v \<in> set (M ! i). v = 0"
    using assms(2,3) sum_list_nonneg_eq_0_iff[of "M ! i"] by blast
  have "map (\<lambda>c. np_divide c (sum_list (M ! i))) (M ! i) = map (\<lambda>c. NaN) (M ! i)"
    by (rule map_cong[OF refl]) (use z assms(3) in \<open>simp add: np_divide_def\<close>)
  then show ?thesis
    unfolding normalize_nth[OF assms(1)] by (simp add: map_replicate_const)
qed

lemma sample_total: "total [[0, 0, 0], [0, 0, 0], [1, 0, 0]] = 1"
  by (simp add: total_def)

section \<open>The content of the empty array and the first column of the trace\<close>

lemma fill_tauchen_overwrites:
  assumes "shaped n n P0" "shaped n n P1"
  shows "fill_tauchen erfc x P0 n rho sigma half_step = fill_tauchen erfc x P1 n rho sigma half_step"
proof (cases "sigma \<noteq> 0 \<or> n = 0")
  case False
  then show ?thesis by (simp add: fill_tauchen_def)
next
  case True
  obtain M0 where M0: "fill_tauchen erfc x P0 n rho sigma half_step = Inr M0" "shaped n n M0"
      "\<forall>i<n. \<forall>j<n. M0 ! i ! j = tauchen_entry erfc x n rho sigma half_step i j"
    using fill_tauchen_nth[OF assms(1) True] by blast
  obtain M1 where M1: "fill_tauchen erfc x P1 n rho sigma half_step = Inr M1" "shaped n n M1"
      "\<forall>i<n. \<forall>j<n. M1 ! i ! j = tauchen_entry erfc x n rho sigma half_step i j"
    using fill_tauchen_nth[OF assms(2) True] by blast
  have "M0 = M1"
  proof (rule nth_equalityI)
    show "length M0 = length M1" using M0(2) M1(2) by (simp add: shapedD)
    fix i assume "i < length M0"
    then have i: "i < n" using M0(2) by (simp add: shapedD)
    show "M0 ! i = M1 ! i"
    proof (rule nth_equalityI)
      show "length (M0 ! i) = length (M1 ! i)" using M0(2) M1(2) i by (simp add: shapedD)
      fix j assume "j < length (M0 ! i)"
      then have "j < n" using M0(2) i by (simp add: shapedD)
      then show "M0 ! i ! j = M1 ! i ! j" using M0(3) M1(3) i by simp
    qed
  qed
  then show ?thesis using M0(1) M1(1) by simp
qed

lemma sim_step_first_column:
  assumes "first_column_zero (st_Xvec st)"
  shows "first_column_zero (st_Xvec (sim_step randn A C S burn_in t st))"
proof (cases "burn_in < int t")
  case False
  then show ?thesis using assms by (simp add: sim_step_def Let_def case_prod_unfold)
next
  case True
  then have k: "nat (int t - burn_in) \<noteq> 0" by simp
  obtain x where X: "st_Xvec (sim_step randn A C S burn_in t st) =
      map2 (\<lambda>row v. row[nat (int t - burn_in) := v]) (st_Xvec st) x"
    using True by (simp add: sim_step_def Let_def case_prod_unfold)
  show ?thesis
    unfolding first_column_zero_def X
  proof
    fix row assume "row \<in> set (map2 (\<lambda>row v. row[nat (int t - burn_in) := v]) (st_Xvec st) x)"
    then obtain r v where r: "r \<in> set (st_Xvec st)" "row = r[nat (int t - burn_in) := v]"
      by (auto dest: set_zip_leftD)
    then show "row ! 0 = 0" using assms k by (simp add: first_column_zero_def)
  qed
qed

lemma fold_sim_step_first_column:
  "first_column_zero (st_Xvec st) \<Longrightarrow>
   first_column_zero (st_Xvec (fold (sim_step randn A C S burn_in) ts st))"
  by (induction ts arbitrary: st) (simp_all add: sim_step_first_column)

lemma trace_first_column_unwritten:
  assumes "discrete_var env A Omega grid_sizes std_devs seed sim_length burn_in row_major True g
           = (Returns r, g')"
    and "1 \<le> sim_length"
  shows "\<exists>X. res_Xvec r = Some X \<and> first_column_zero X"
proof -
  from assms(1) obtain S Pi1 Xvec1 n where
    run: "run_sim env A (sqrtm env Omega) (zeros (nat n) (nat n)) (zeros (length A) (nat sim_length)) S
       sim_length burn_in seed = (Inr (Pi1, Xvec1), g')"
    and r: "r = \<lparr>res_Pi = normalize (prune Pi1), res_S = map (\<lambda>i. S ! i) (kept_states Pi1),
          res_Xvec = (if True then Some Xvec1 else None)\<rparr>"
    by (rule discrete_var_ReturnsE)
  have "0 < nat sim_length" using assms(2) by simp
  then have z: "first_column_zero (zeros (length A) (nat sim_length))"
    by (simp add: first_column_zero_def zeros_def)
  have "first_column_zero Xvec1"
    using run z
    by (auto simp: run_sim_def Let_def fold_sim_step_first_column split: sum.splits)
  then show ?thesis using r by simp
qed

lemma sample_tauchen_grid:
  "tauchen_x 0 1 3 3 = Inr [- 3, 0, 3]" "tauchen_half_step 0 1 3 3 = 3 / 2"
  by (simp_all add: tauchen_x_def tauchen_half_step_def tauchen_std_y_def linspace_def Let_def upt_3)

lemma sim_step_x0:
  "st_x0 (sim_step randn A C S burn_in t st) =
     vadd (matvec A (st_x0 st)) (matvec C (fst (randn_vec randn (length A) (st_gen st))))"
  by (simp add: sim_step_def Let_def case_prod_unfold)

lemma sim_step_nearest:
  assumes "S \<noteq> []"
  shows "nearest S (st_x0 (sim_step randn A C S burn_in t st)) =
           Inr (st_ind_i (sim_step randn A C S burn_in t st))"
proof -
  let ?x = "vadd (matvec A (st_x0 st)) (matvec C (fst (randn_vec randn (length A) (st_gen st))))"
  obtain j where j: "nearest S ?x = Inr j" using nearest_in_range[OF assms] by blast
  have "st_ind_i (sim_step randn A C S burn_in t st) = j"
    using j by (simp add: sim_step_def Let_def case_prod_unfold)
  then show ?thesis unfolding sim_step_x0 using j by simp
qed

lemma sim_step_quantizes:
  assumes "S \<noteq> []"
  shows "st_ind_i (sim_step randn A C S burn_in t st) < length S \<and>
         (\<forall>j<length S. sq_dists S (st_x0 (sim_step randn A C S burn_in t st)) !
                          st_ind_i (sim_step randn A C S burn_in t st)
                        \<le> sq_dists S (st_x0 (sim_step randn A C S burn_in t st)) ! j) \<and>
         (\<forall>j<st_ind_i (sim_step randn A C S burn_in t st).
               sq_dists S (st_x0 (sim_step randn A C S burn_in t st)) !
                 st_ind_i (sim_step randn A C S burn_in t st)
               < sq_dists S (st_x0 (sim_step randn A C S burn_in t st)) ! j)"
  by (rule nearest_first[OF sim_step_nearest[OF assms]])

lemma run_sim_unfold:
  assumes "run_sim env A C Pi0 Xvec0 S sim_length burn_in seed = (Inr (Pi1, Xvec1), g')"
  shows "\<exists>i0. argmin (map (\<lambda>row. sum_list (map (\<lambda>s. s\<^sup>2) row)) S) = Inr i0 \<and>
           Pi1 = st_Pi (fold (sim_step (rng_randn env) A C S burn_in) [0..<nat (sim_length + burn_in)]
                   \<lparr>st_x0 = replicate (length A) 0, st_ind_i = i0, st_Pi = Pi0, st_Xvec = Xvec0,
                     st_gen = rng_seed env seed\<rparr>) \<and>
           Xvec1 = st_Xvec (fold (sim_step (rng_randn env) A C S burn_in) [0..<nat (sim_length + burn_in)]
                   \<lparr>st_x0 = replicate (length A) 0, st_ind_i = i0, st_Pi = Pi0, st_Xvec = Xvec0,
                     st_gen = rng_seed env seed\<rparr>) \<and>
           g' = st_gen (fold (sim_step (rng_randn env) A C S burn_in) [0..<nat (sim_length + burn_in)]
                   \<lparr>st_x0 = replicate (length A) 0, st_ind_i = i0, st_Pi = Pi0, st_Xvec = Xvec0,
                     st_gen = rng_seed env seed\<rparr>)"
  using assms by (auto simp: run_sim_def Let_def split: sum.splits)

lemma argmin_first_minimum: "argmin d = Inr k \<Longrightarrow> first_minimum d k"
  unfolding first_minimum_def by (rule argmin_first)

lemma sim_step_first_minimum:
  assumes "S \<noteq> []"
  shows "first_minimum (sq_dists S (st_x0 (sim_step randn A C S burn_in t st)))
           (st_ind_i (sim_step randn A C S burn_in t st))"
  using sim_step_nearest[OF assms, of randn A C burn_in t st]
  unfolding nearest_def by (rule argmin_first_minimum)

lemma sample_tie_step:
  "sim_step (rng_randn sample_env) [[0]] [[1]] [[1], [3]] 0 0
     \<lparr>st_x0 = [0], st_ind_i = Suc 0, st_Pi = [[0, 0], [0, 0]], st_Xvec = [[0, 0]], st_gen = 0\<rparr>
   = \<lparr>st_x0 = [2], st_ind_i = 0, st_Pi = [[0, 0], [0, 0]], st_Xvec = [[0, 0]], st_gen = Suc 0\<rparr>"
  "sq_dists [[1], [3]] [2] = [1, 1]"
proof -
  have n: "nearest [[1], [3]] [2] = Inr 0"
    by (simp add: nearest_def sq_dists_def argmin_def)
  show "sim_step (rng_randn sample_env) [[0]] [[1]] [[1], [3]] 0 0
     \<lparr>st_x0 = [0], st_ind_i = Suc 0, st_Pi = [[0, 0], [0, 0]], st_Xvec = [[0, 0]], st_gen = 0\<rparr>
   = \<lparr>st_x0 = [2], st_ind_i = 0, st_Pi = [[0, 0], [0, 0]], st_Xvec = [[0, 0]], st_gen = Suc 0\<rparr>"
    by (simp add: sim_step_def sample_randn n matvec_def vadd_def Let_def del: randn_vec.simps)
  show "sq_dists [[1], [3]] [2] = [1, 1]" by (simp add: sq_dists_def)
qed

section \<open>Evaluation in double arithmetic\<close>

lemma bitlen_pos: "0 < x \<Longrightarrow> bitlen x = bitlen (x div 2) + 1"
  using compute_bitlen[of x] by simp

lemmas fl_eval = round64_def ilog2_def pow2_def round_even_def Let_def bitlen_pos
  fl_add_def fl_sub_def fl_mul_def fl_div_def

lemma assign_3:
  "assign_block (zeros 3 3) 0 0 [[a, b], [c, d]] = [[a, b, 0], [c, d, 0], [0, 0, 0]]"
  "assign_block (zeros 3 3) 0 (Suc 0) [[a, b], [c, d]] = [[0, a, b], [0, c, d], [0, 0, 0]]"
  "assign_block (zeros 3 3) (Suc 0) 0 [[a, b], [c, d]] = [[0, 0, 0], [a, b, 0], [c, d, 0]]"
  "assign_block (zeros 3 3) (Suc 0) (Suc 0) [[a, b], [c, d]] = [[0, 0, 0], [0, a, b], [0, c, d]]"
  by (simp_all add: assign_block_def zeros_def upt_3 numeral_eq_Suc)

lemma upt_4: "[0..<4] = [0, 1, 2, 3]"
  by (simp add: upt_rec numeral_eq_Suc)

lemma assign_4:
  "assign_block (zeros 4 4) 0 0 [[a, b, c], [d, e, f], [g, h, i]]
     = [[a, b, c, 0], [d, e, f, 0], [g, h, i, 0], [0, 0, 0, 0]]"
  "assign_block (zeros 4 4) 0 (Suc 0) [[a, b, c], [d, e, f], [g, h, i]]
     = [[0, a, b, c], [0, d, e, f], [0, g, h, i], [0, 0, 0, 0]]"
  "assign_block (zeros 4 4) (Suc 0) 0 [[a, b, c], [d, e, f], [g, h, i]]
     = [[0, 0, 0, 0], [a, b, c, 0], [d, e, f, 0], [g, h, i, 0]]"
  "assign_block (zeros 4 4) (Suc 0) (Suc 0) [[a, b, c], [d, e, f], [g, h, i]]
     = [[0, 0, 0, 0], [0, a, b, c], [0, d, e, f], [0, g, h, i]]"
  by (simp_all add: assign_block_def zeros_def upt_4 numeral_eq_Suc)

lemma halve_3:
  "fl_halve_rows [r0, r1, r2] (Suc 0) 2 = [r0, map (\<lambda>v. fl_div v 2) r1, r2]"
  by (simp add: fl_halve_rows_def upt_3)

lemma halve_4:
  "fl_halve_rows [r0, r1, r2, r3] (Suc 0) 3 = [r0, map (\<lambda>v. fl_div v 2) r1, map (\<lambda>v. fl_div v 2) r2, r3]"
  by (simp add: fl_halve_rows_def upt_4)

lemma sample_p: "fl_div (fl_add 1 (3602879701896397 / 18014398509481984)) 2 = 5404319552844595 / 9007199254740992"
  by (simp add: fl_eval)

lemma sample_q: "fl_sub 1 (5404319552844595 / 9007199254740992) = 3602879701896397 / 9007199254740992"
  by (simp add: fl_eval)

lemma sample_theta_2:
  "row_build_mat_f64 2 (5404319552844595 / 9007199254740992) (5404319552844595 / 9007199254740992) =
     Inr [[5404319552844595 / 9007199254740992, 3602879701896397 / 9007199254740992],
          [3602879701896397 / 9007199254740992, 5404319552844595 / 9007199254740992]]"
  by (subst row_build_mat_f64.simps) (simp add: sample_q)

lemma sample_smult_2:
  "fl_smult (5404319552844595 / 9007199254740992)
     [[5404319552844595 / 9007199254740992, 3602879701896397 / 9007199254740992],
      [3602879701896397 / 9007199254740992, 5404319552844595 / 9007199254740992]] =
     [[3242591731706757 / 9007199254740992, 1080863910568919 / 4503599627370496],
      [1080863910568919 / 4503599627370496, 3242591731706757 / 9007199254740992]]"
  "fl_smult (3602879701896397 / 9007199254740992)
     [[5404319552844595 / 9007199254740992, 3602879701896397 / 9007199254740992],
      [3602879701896397 / 9007199254740992, 5404319552844595 / 9007199254740992]] =
     [[1080863910568919 / 4503599627370496, 1441151880758559 / 9007199254740992],
      [1441151880758559 / 9007199254740992, 1080863910568919 / 4503599627370496]]"
  by (simp_all add: fl_smult_def fl_eval)

lemma sample_smult_3:
  "fl_smult (5404319552844595 / 9007199254740992)
     [[3242591731706757 / 9007199254740992, 1080863910568919 / 2251799813685248, 1441151880758559 / 9007199254740992],
      [1080863910568919 / 4503599627370496, 1170935903116329 / 2251799813685248, 1080863910568919 / 4503599627370496],
      [1441151880758559 / 9007199254740992, 1080863910568919 / 2251799813685248, 3242591731706757 / 9007199254740992]] =
     [[7782220156096217 / 36028797018963968, 5188146770730811 / 18014398509481984, 6917529027641083 / 72057594037927936],
      [5188146770730811 / 36028797018963968, 5620492334958379 / 18014398509481984, 5188146770730811 / 36028797018963968],
      [6917529027641083 / 72057594037927936, 5188146770730811 / 18014398509481984, 7782220156096217 / 36028797018963968]]"
  "fl_smult (3602879701896397 / 9007199254740992)
     [[3242591731706757 / 9007199254740992, 1080863910568919 / 2251799813685248, 1441151880758559 / 9007199254740992],
      [1080863910568919 / 4503599627370496, 1170935903116329 / 2251799813685248, 1080863910568919 / 4503599627370496],
      [1441151880758559 / 9007199254740992, 1080863910568919 / 2251799813685248, 3242591731706757 / 9007199254740992]] =
     [[5188146770730811 / 36028797018963968, 3458764513820541 / 18014398509481984, 4611686018427389 / 72057594037927936],
      [3458764513820541 / 36028797018963968, 3746994889972253 / 18014398509481984, 3458764513820541 / 36028797018963968],
      [4611686018427389 / 72057594037927936, 3458764513820541 / 18014398509481984, 5188146770730811 / 36028797018963968]]"
  by (simp_all add: fl_smult_def fl_eval)

lemma sample_theta_3:
  "row_build_mat_f64 3 (5404319552844595 / 9007199254740992) (5404319552844595 / 9007199254740992) =
     Inr [[3242591731706757 / 9007199254740992, 1080863910568919 / 2251799813685248, 1441151880758559 / 9007199254740992],
          [1080863910568919 / 4503599627370496, 1170935903116329 / 2251799813685248, 1080863910568919 / 4503599627370496],
          [1441151880758559 / 9007199254740992, 1080863910568919 / 2251799813685248, 3242591731706757 / 9007199254740992]]"
  by (subst row_build_mat_f64.simps)
     (simp add: sample_theta_2 sample_q sample_smult_2 assign_3 halve_3 fl_madd_def
        round64_def ilog2_def pow2_def round_even_def Let_def bitlen_pos fl_add_def fl_div_def)

lemma sample_theta_4:
  "row_build_mat_f64 4 (5404319552844595 / 9007199254740992) (5404319552844595 / 9007199254740992) =
     Inr [[7782220156096217 / 36028797018963968, 972777519512027 / 2251799813685248, 1297036692682703 / 4503599627370496, 4611686018427389 / 72057594037927936],
          [5188146770730811 / 36028797018963968, 3674937295934325 / 9007199254740992, 3170534137668829 / 9007199254740992, 3458764513820541 / 36028797018963968],
          [3458764513820541 / 36028797018963968, 6341068275337659 / 18014398509481984, 3674937295934325 / 9007199254740992, 5188146770730811 / 36028797018963968],
          [4611686018427389 / 72057594037927936, 1297036692682703 / 4503599627370496, 972777519512027 / 2251799813685248, 7782220156096217 / 36028797018963968]]"
  by (subst row_build_mat_f64.simps)
     (simp add: sample_theta_3 sample_q sample_smult_3 assign_4 halve_4 fl_madd_def
        round64_def ilog2_def pow2_def round_even_def Let_def bitlen_pos fl_add_def fl_div_def)

section \<open>Properties of the rounding\<close>

lemma pow2_pos: "0 < pow2 e"
  by (simp add: pow2_def)

lemma pow2_powi: "pow2 e = 2 powi e"
  by (simp add: pow2_def power_int_def field_simps)

lemma pow2_add: "pow2 (a + b) = pow2 a * pow2 b"
  by (simp add: pow2_powi power_int_add)

lemma pow2_nat: "pow2 (int k) = 2 ^ k"
  by (simp add: pow2_def)

lemma pow2_mono: "a \<le> b \<Longrightarrow> pow2 a \<le> pow2 b"
  by (simp add: pow2_powi power_int_increasing)

lemma pow2_strict_mono: "a < b \<Longrightarrow> pow2 a < pow2 b"
  by (simp add: pow2_powi power_int_strict_increasing)

lemma pow2_less_iff: "pow2 a < pow2 b \<longleftrightarrow> a < b"
  using pow2_strict_mono[of a b] pow2_mono[of b a] by fastforce

lemma ilog2_bounds:
  assumes "0 < x"
  shows "pow2 (ilog2 x) \<le> x \<and> x < pow2 (ilog2 x + 1)"
proof (cases "1 \<le> x")
  case True
  define m where "m = \<lfloor>x\<rfloor>"
  have m: "0 < m" using True by (simp add: m_def)
  have b1: "1 \<le> bitlen m" using m by (simp add: bitlen_alt_def)
  from bitlen_bounds[OF m] have lo: "2 ^ nat (bitlen m - 1) \<le> m" and hi: "m < 2 ^ nat (bitlen m)"
    by simp_all
  have "real_of_int (2 ^ nat (bitlen m - 1)) \<le> real_of_int m" using lo by linarith
  also have "\<dots> \<le> x" by (simp add: m_def)
  finally have l: "pow2 (bitlen m - 1) \<le> x" using b1 by (simp add: pow2_def)
  have "m + 1 \<le> 2 ^ nat (bitlen m)" using hi by simp
  then have "real_of_int (m + 1) \<le> real_of_int (2 ^ nat (bitlen m))" by linarith
  moreover have "x < real_of_int (m + 1)" by (simp add: m_def)
  ultimately have h: "x < pow2 (bitlen m)" using b1 by (simp add: pow2_def)
  show ?thesis using True l h by (simp add: ilog2_def m_def)
next
  case False
  define y where "y = 1 / x"
  define m where "m = \<lceil>y\<rceil> - 1"
  have y: "1 < y" using False assms by (simp add: y_def)
  have m: "0 < m" using y by (simp add: m_def less_ceiling_iff)
  have b1: "1 \<le> bitlen m" using m by (simp add: bitlen_alt_def)
  from bitlen_bounds[OF m] have lo: "2 ^ nat (bitlen m - 1) \<le> m" and hi: "m < 2 ^ nat (bitlen m)"
    by simp_all
  have "y \<le> real_of_int (m + 1)" by (simp add: m_def)
  also have "real_of_int (m + 1) \<le> real_of_int (2 ^ nat (bitlen m))" using hi by linarith
  finally have "y \<le> 2 ^ nat (bitlen m)" by simp
  then have l: "pow2 (- bitlen m) \<le> x"
    using b1 assms by (simp add: pow2_def y_def field_simps)
  have "real_of_int (2 ^ nat (bitlen m - 1)) \<le> real_of_int m" using lo by linarith
  also have "real_of_int m < y" by (simp add: m_def) linarith
  finally have yy: "2 ^ nat (bitlen m - 1) < y" by simp
  have h: "x < pow2 (- bitlen m + 1)"
  proof (cases "bitlen m = 1")
    case True
    then show ?thesis using False by (simp add: pow2_def)
  next
    case F: False
    then have "nat (- (- bitlen m + 1)) = nat (bitlen m - 1)" "\<not> 0 \<le> - bitlen m + 1"
      using b1 by simp_all
    then show ?thesis using yy assms by (simp add: pow2_def y_def field_simps)
  qed
  show ?thesis using False l h by (simp add: ilog2_def m_def y_def)
qed

lemma ilog2_unique:
  assumes "pow2 k \<le> x" "x < pow2 (k + 1)"
  shows "ilog2 x = k"
proof -
  have x: "0 < x" using assms(1) pow2_pos[of k] by linarith
  from ilog2_bounds[OF x] have a: "pow2 (ilog2 x) \<le> x" and b: "x < pow2 (ilog2 x + 1)" by simp_all
  have "pow2 k < pow2 (ilog2 x + 1)" using assms(1) b by linarith
  then have 1: "k < ilog2 x + 1" by (simp add: pow2_less_iff)
  have "pow2 (ilog2 x) < pow2 (k + 1)" using assms(2) a by linarith
  then have 2: "ilog2 x < k + 1" by (simp add: pow2_less_iff)
  show ?thesis using 1 2 by linarith
qed

lemma ilog2_floor_log: "0 < x \<Longrightarrow> ilog2 x = \<lfloor>log 2 x\<rfloor>"
proof -
  assume x: "0 < x"
  from ilog2_bounds[OF x] have a: "2 powr (real_of_int (ilog2 x)) \<le> x"
    and b: "x < 2 powr (real_of_int (ilog2 x + 1))"
    using powr_int[of 2 "ilog2 x"] powr_int[of 2 "ilog2 x + 1"] by (simp_all only: pow2_def)
  have "real_of_int (ilog2 x) \<le> log 2 x" using a x by (simp add: le_log_iff)
  moreover have "log 2 x < real_of_int (ilog2 x + 1)" using b x by (simp only: log_less_iff)
  ultimately show ?thesis by linarith
qed

lemma round_even_of_int: "round_even (of_int k) = k"
  by (simp add: round_even_def)

lemma round_even_ge: "of_int a \<le> t \<Longrightarrow> a \<le> round_even t"
proof -
  assume "of_int a \<le> t"
  then have "a \<le> \<lfloor>t\<rfloor>" by (simp add: le_floor_iff)
  then show ?thesis by (auto simp: round_even_def Let_def)
qed

lemma round_even_le: "t \<le> of_int b \<Longrightarrow> round_even t \<le> b"
proof -
  assume t: "t \<le> of_int b"
  have f: "\<lfloor>t\<rfloor> \<le> b" using t by (simp add: floor_le_iff)
  have "\<lfloor>t\<rfloor> + 1 \<le> b" if "of_int \<lfloor>t\<rfloor> < t"
  proof -
    have "of_int \<lfloor>t\<rfloor> < (of_int b :: real)" using that t by linarith
    then show ?thesis by simp
  qed
  then show ?thesis using f by (auto simp: round_even_def Let_def)
qed

text \<open>A multiple of a power of two with at most 53 significant bits, not below the least exponent.\<close>

lemma round64_representable:
  assumes m: "\<bar>m\<bar> \<le> 2 ^ 53" and e: "- 1074 \<le> e" and n: "e = - 1074 \<or> 2 ^ 52 \<le> \<bar>m\<bar>"
  shows "round64 (of_int m * pow2 e) = of_int m * pow2 e"
proof (cases "m = 0")
  case True
  then show ?thesis by (simp add: round64_def)
next
  case False
  define a where "a = \<bar>m\<bar>"
  have a: "0 < a" "a \<le> 2 ^ 53" using False m by (simp_all add: a_def)
  define k where "k = bitlen a - 1"
  from bitlen_bounds[OF a(1)] have lo: "2 ^ nat k \<le> a" and hi: "a < 2 ^ nat (k + 1)"
    by (simp_all add: k_def)
  have k0: "0 \<le> k" using a(1) by (simp add: k_def bitlen_alt_def)
  have k53: "k \<le> 53"
  proof (rule ccontr)
    assume "\<not> k \<le> 53"
    then have "(54::nat) \<le> nat k" by simp
    then have "(2::int) ^ 54 \<le> 2 ^ nat k" by (rule power_increasing) simp
    then show False using lo a(2) by simp
  qed
  have y: "\<bar>of_int m * pow2 e\<bar> = of_int a * pow2 e"
    using pow2_pos[of e] by (simp add: a_def abs_mult)
  have "real_of_int (2 ^ nat k) \<le> of_int a" using lo by linarith
  then have l1: "pow2 k \<le> of_int a" using k0 by (simp add: pow2_def)
  have "real_of_int a < of_int (2 ^ nat (k + 1))" using hi by linarith
  then have h1: "of_int a < pow2 (k + 1)" using k0 by (simp add: pow2_def)
  have "pow2 (k + e) \<le> of_int a * pow2 e" "of_int a * pow2 e < pow2 (k + e + 1)"
    using l1 h1 pow2_pos[of e] by (simp_all add: pow2_add)
  then have il: "ilog2 \<bar>of_int m * pow2 e\<bar> = k + e"
    unfolding y by (rule ilog2_unique)
  define e' where "e' = max (k + e) (- 1022) - 52"
  have nz: "of_int m * pow2 e \<noteq> 0" using False pow2_pos[of e] by simp
  have r: "round64 (of_int m * pow2 e) = of_int (round_even (of_int m * pow2 e / pow2 e')) * pow2 e'"
    using nz by (simp add: round64_def il e'_def Let_def)
  have cases: "e' = e \<or> (e' = e + 1 \<and> a = 2 ^ 53)"
  proof (cases "2 ^ 52 \<le> a")
    case True
    have "52 \<le> k"
    proof (rule ccontr)
      assume "\<not> 52 \<le> k"
      then have "nat (k + 1) \<le> 52" by simp
      then have "(2::int) ^ nat (k + 1) \<le> 2 ^ 52" by (rule power_increasing) simp
      then show False using hi True by linarith
    qed
    then have kk: "k = 52 \<or> k = 53" using k53 by linarith
    have "k = 53 \<Longrightarrow> a = 2 ^ 53"
    proof -
      assume "k = 53"
      then have "nat k = 53" by simp
      then show "a = 2 ^ 53" using lo a(2) by simp
    qed
    then show ?thesis using kk e by (auto simp: e'_def)
  next
    case F: False
    then have e74: "e = - 1074" using n by (simp add: a_def)
    have "k \<le> 51"
    proof (rule ccontr)
      assume "\<not> k \<le> 51"
      then have "(52::nat) \<le> nat k" by simp
      then have "(2::int) ^ 52 \<le> 2 ^ nat k" by (rule power_increasing) simp
      then show False using lo F by linarith
    qed
    then show ?thesis using e74 by (simp add: e'_def)
  qed
  show ?thesis
  proof (cases "e' = e")
    case True
    have "of_int m * pow2 e / pow2 e' = of_int m" using pow2_pos[of e] True by simp
    then show ?thesis unfolding r by (simp add: round_even_of_int True)
  next
    case F: False
    then have e1: "e' = e + 1" and a53: "a = 2 ^ 53" using cases by simp_all
    have "pow2 1 = 2" by (simp add: pow2_def)
    then have p: "pow2 e' = 2 * pow2 e" unfolding e1 pow2_add by simp
    have "m = 2 * (2 ^ 52) \<or> m = 2 * (- (2 ^ 52))" using a53 by (simp add: a_def) linarith
    then obtain h :: int where h: "m = 2 * h" by blast
    have "of_int m * pow2 e / pow2 e' = of_int h" using pow2_pos[of e] by (simp add: p h)
    then show ?thesis unfolding r by (simp add: round_even_of_int p h)
  qed
qed

lemma round64_idem: "round64 (round64 x) = round64 x"
proof (cases "x = 0")
  case True
  then show ?thesis by (simp add: round64_def)
next
  case False
  define L where "L = ilog2 \<bar>x\<bar>"
  define e where "e = max L (- 1022) - 52"
  define t where "t = x / pow2 e"
  define m where "m = round_even t"
  have r: "round64 x = of_int m * pow2 e"
    using False by (simp add: round64_def Let_def L_def e_def t_def m_def)
  have ax: "0 < \<bar>x\<bar>" using False by simp
  from ilog2_bounds[OF ax] have lo: "pow2 L \<le> \<bar>x\<bar>" and hi: "\<bar>x\<bar> < pow2 (L + 1)"
    by (simp_all add: L_def)
  have at: "\<bar>t\<bar> = \<bar>x\<bar> / pow2 e" using pow2_pos[of e] by (simp add: t_def)
  have e74: "- 1074 \<le> e" by (simp add: e_def)
  have "pow2 (L + 1) \<le> pow2 (e + 53)" by (rule pow2_mono) (simp add: e_def)
  then have "\<bar>x\<bar> < pow2 (e + 53)" using hi by linarith
  moreover have p53: "pow2 53 = 2 ^ 53" by (simp add: pow2_def)
  ultimately have "\<bar>x\<bar> < pow2 e * 2 ^ 53" unfolding pow2_add by simp
  then have "\<bar>t\<bar> < 2 ^ 53" unfolding at using pow2_pos[of e] by (simp add: field_simps)
  then have "- (2 ^ 53) \<le> t" "t \<le> 2 ^ 53" by linarith+
  then have tt: "real_of_int (- (2 ^ 53)) \<le> t" "t \<le> real_of_int (2 ^ 53)" by simp_all
  have "- (2 ^ 53) \<le> m" unfolding m_def using tt(1) by (rule round_even_ge)
  moreover have "m \<le> 2 ^ 53" unfolding m_def using tt(2) by (rule round_even_le)
  ultimately have m53: "\<bar>m\<bar> \<le> 2 ^ 53" by linarith
  have n: "e = - 1074 \<or> 2 ^ 52 \<le> \<bar>m\<bar>"
  proof (cases "- 1022 \<le> L")
    case True
    then have "e + 52 = L" by (simp add: e_def)
    then have "pow2 (e + 52) \<le> \<bar>x\<bar>" using lo by simp
    moreover have "pow2 52 = 2 ^ 52" by (simp add: pow2_def)
    ultimately have "pow2 e * 2 ^ 52 \<le> \<bar>x\<bar>" unfolding pow2_add by simp
    then have t52: "2 ^ 52 \<le> \<bar>t\<bar>" unfolding at using pow2_pos[of e] by (simp add: field_simps)
    have "2 ^ 52 \<le> \<bar>m\<bar>"
    proof (cases "0 \<le> t")
      case True
      then have "real_of_int (2 ^ 52) \<le> t" using t52 by simp
      then have "2 ^ 52 \<le> m" unfolding m_def by (rule round_even_ge)
      then show ?thesis by linarith
    next
      case False
      then have "t \<le> real_of_int (- (2 ^ 52))" using t52 by simp
      then have "m \<le> - (2 ^ 52)" unfolding m_def by (rule round_even_le)
      then show ?thesis by linarith
    qed
    then show ?thesis by simp
  next
    case False
    then show ?thesis by (simp add: e_def)
  qed
  show ?thesis unfolding r by (rule round64_representable[OF m53 e74 n])
qed

section \<open>Central symmetry in double arithmetic\<close>

lemma round64_0: "round64 0 = 0"
  by (simp add: round64_def)

lemma fl_add_0: "fl_add 0 0 = 0" "fl_add (round64 x) 0 = round64 x" "fl_add 0 (round64 x) = round64 x"
  by (simp_all add: fl_add_def round64_0 round64_idem)

lemma fl_add_commute: "fl_add a b = fl_add b a"
  by (simp add: fl_add_def add.commute)

lemma all_less_2: "(\<forall>i<(2::nat). Q i) \<longleftrightarrow> Q 0 \<and> Q 1"
  by (simp add: numeral_2_eq_2 All_less_Suc conj_commute)

lemma all_less_3: "(\<forall>i<(3::nat). Q i) \<longleftrightarrow> Q 0 \<and> Q 1 \<and> Q 2"
  by (auto simp add: numeral_3_eq_3 numeral_2_eq_2 All_less_Suc)

lemma centrally_symmetric_2:
  "a = d \<Longrightarrow> b = c \<Longrightarrow> centrally_symmetric 2 [[a, b], [c, d]]"
  unfolding centrally_symmetric_def all_less_2 by simp

lemma centrally_symmetric_3:
  "a = i \<Longrightarrow> b = h \<Longrightarrow> c = g \<Longrightarrow> d = f \<Longrightarrow> centrally_symmetric 3 [[a, b, c], [d, e, f], [g, h, i]]"
  unfolding centrally_symmetric_def all_less_3 by (simp add: numeral_2_eq_2)

lemma row_build_mat_f64_2:
  "row_build_mat_f64 2 p p = Inr [[p, fl_sub 1 p], [fl_sub 1 p, p]]"
  by (subst row_build_mat_f64.simps) simp

lemma row_build_mat_f64_3:
  "row_build_mat_f64 3 p p =
     Inr [[fl_mul p p, fl_add (fl_mul p (fl_sub 1 p)) (fl_mul (fl_sub 1 p) p), fl_mul (fl_sub 1 p) (fl_sub 1 p)],
          [fl_div (fl_add (fl_mul p (fl_sub 1 p)) (fl_mul (fl_sub 1 p) p)) 2,
           fl_div (fl_add (fl_add (fl_add (fl_mul p p) (fl_mul (fl_sub 1 p) (fl_sub 1 p)))
                                  (fl_mul (fl_sub 1 p) (fl_sub 1 p))) (fl_mul p p)) 2,
           fl_div (fl_add (fl_mul (fl_sub 1 p) p) (fl_mul p (fl_sub 1 p))) 2],
          [fl_mul (fl_sub 1 p) (fl_sub 1 p), fl_add (fl_mul (fl_sub 1 p) p) (fl_mul p (fl_sub 1 p)), fl_mul p p]]"
proof -
  have m: "fl_add (fl_mul a b) 0 = fl_mul a b" "fl_add 0 (fl_mul a b) = fl_mul a b" for a b
    by (simp_all add: fl_mul_def fl_add_0)
  have a: "fl_add (fl_add a b) 0 = fl_add a b" "fl_add 0 (fl_add a b) = fl_add a b" for a b
    unfolding fl_add_def[of a b] by (simp_all add: fl_add_0)
  show ?thesis
    by (subst row_build_mat_f64.simps)
       (simp add: row_build_mat_f64_2 fl_smult_def assign_3 fl_madd_def halve_3 fl_add_0 m a)
qed

lemma row_build_mat_f64_symmetric:
  assumes "n = 2 \<or> n = 3"
  shows "\<exists>T. row_build_mat_f64 n p p = Inr T \<and> length T = nat n \<and>
             centrally_symmetric (nat n) T"
  using assms
proof
  assume n: "n = 2"
  have "centrally_symmetric 2 [[p, fl_sub 1 p], [fl_sub 1 p, p]]"
    by (rule centrally_symmetric_2) (rule refl)+
  then show ?thesis unfolding n by (simp add: row_build_mat_f64_2)
next
  assume n: "n = 3"
  let ?s = "fl_sub 1 p"
  have c: "fl_add (fl_mul p ?s) (fl_mul ?s p) = fl_add (fl_mul ?s p) (fl_mul p ?s)"
    by (rule fl_add_commute)
  have "centrally_symmetric 3
     [[fl_mul p p, fl_add (fl_mul p (fl_sub 1 p)) (fl_mul (fl_sub 1 p) p), fl_mul (fl_sub 1 p) (fl_sub 1 p)],
          [fl_div (fl_add (fl_mul p (fl_sub 1 p)) (fl_mul (fl_sub 1 p) p)) 2,
           fl_div (fl_add (fl_add (fl_add (fl_mul p p) (fl_mul (fl_sub 1 p) (fl_sub 1 p)))
                                  (fl_mul (fl_sub 1 p) (fl_sub 1 p))) (fl_mul p p)) 2,
           fl_div (fl_add (fl_mul (fl_sub 1 p) p) (fl_mul p (fl_sub 1 p))) 2],
          [fl_mul (fl_sub 1 p) (fl_sub 1 p), fl_add (fl_mul (fl_sub 1 p) p) (fl_mul p (fl_sub 1 p)), fl_mul p p]]"
  proof (rule centrally_symmetric_3)
    show "fl_add (fl_mul p ?s) (fl_mul ?s p) = fl_add (fl_mul ?s p) (fl_mul p ?s)" by (rule c)
    show "fl_div (fl_add (fl_mul p ?s) (fl_mul ?s p)) 2 = fl_div (fl_add (fl_mul ?s p) (fl_mul p ?s)) 2"
      by (simp only: c)
  qed (rule refl)+
  then show ?thesis unfolding n by (simp add: row_build_mat_f64_3)
qed

lemma centrally_symmetricD:
  "centrally_symmetric n M \<Longrightarrow> i < n \<Longrightarrow> j < n \<Longrightarrow> M ! i ! j = M ! (n - 1 - i) ! (n - 1 - j)"
  unfolding centrally_symmetric_def by blast

lemma sample_theta_f64:
  "rouwenhorst_theta_f64 4 (3602879701896397 / 2 ^ 54) =
     Inr [[7782220156096217 / 2 ^ 55, 972777519512027 / 2 ^ 51, 1297036692682703 / 2 ^ 52, 4611686018427389 / 2 ^ 56],
      [5188146770730811 / 2 ^ 55, 3674937295934325 / 2 ^ 53, 3170534137668829 / 2 ^ 53, 3458764513820541 / 2 ^ 55],
      [3458764513820541 / 2 ^ 55, 6341068275337659 / 2 ^ 54, 3674937295934325 / 2 ^ 53, 5188146770730811 / 2 ^ 55],
      [4611686018427389 / 2 ^ 56, 1297036692682703 / 2 ^ 52, 972777519512027 / 2 ^ 51, 7782220156096217 / 2 ^ 55]]"
proof -
  have "fl_div (fl_add 1 (3602879701896397 / 2 ^ 54)) 2 = 5404319552844595 / 9007199254740992"
    using sample_p by simp
  then show ?thesis
    unfolding rouwenhorst_theta_f64_def Let_def by (simp only: sample_theta_4) simp
qed

section \<open>The claims\<close>

text \<open>
  Claim C1. For \<open>n \<ge> 2\<close>, \<open>\<bar>rho\<bar> < 1\<close> and \<open>sigma > 0\<close>, \<^verbatim>\<open>rouwenhorst\<close> returns a matrix in which
  every row sums to 1 and every entry lies in \<open>[0, 1]\<close>; the same holds for \<^verbatim>\<open>tauchen\<close> with
  \<open>n \<ge> 2\<close>, \<open>m > 0\<close>, \<open>sigma_u > 0\<close> and \<open>\<bar>rho\<bar> < 1\<close>, for every complementary error
  function that is non-increasing with values in \<open>[0, 2]\<close>. In real arithmetic the row
  sums are exactly 1, hence within the tolerance \<open>10\<^sup>-\<^sup>1\<^sup>0\<close>.
\<close>

theorem transition_matrix_stochastic:
  assumes "2 \<le> n" "\<bar>rho\<bar> < 1"
  shows "(0 < sigma \<longrightarrow>
           (\<exists>mc. rouwenhorst n ybar sigma rho = Inr mc \<and> row_stochastic (nat n) (P mc))) \<and>
         (0 < m \<and> 0 < sigma_u \<and> erfc_like erfc \<longrightarrow>
           (\<exists>mc. tauchen erfc rho sigma_u b m n = Returns mc \<and> row_stochastic (nat n) (P mc)))"
  using rouwenhorst_stochastic[OF assms, of ybar sigma]
    tauchen_stochastic[OF assms, of m sigma_u erfc b] by blast

text \<open>The statement of C1 at \<open>n = 3\<close>, \<open>rho = 1/2\<close>, \<open>sigma = sigma_u = 1\<close>, \<open>m = 3\<close>.\<close>

theorem transition_matrix_stochastic_witness:
  "(2::int) \<le> 3 \<and> \<bar>1 / 2 :: real\<bar> < 1 \<and> (0::real) < 1 \<and> (0::real) < 3 \<and> erfc_like erfc_sample \<and>
   (\<exists>mc. rouwenhorst 3 0 1 (1 / 2) = Inr mc \<and> row_stochastic (nat 3) (P mc)) \<and>
   (\<exists>mc. tauchen erfc_sample (1 / 2) 1 0 3 3 = Returns mc \<and> row_stochastic (nat 3) (P mc))"
  using transition_matrix_stochastic[of 3 "1 / 2" 1 0 3 1 erfc_sample 0] erfc_like_sample by simp

text \<open>
  Claim C2. Whenever \<^verbatim>\<open>tauchen\<close> returns a chain, with \<open>x\<close> the demeaned grid it built, every row
  \<open>i\<close> of the matrix has the closed form: the first column is
  \<open>\<Phi>((x[0] - rho x[i] + half_step) / sigma)\<close>, the last column is
  \<open>1 - \<Phi>((x[n-1] - rho x[i] - half_step) / sigma)\<close>, an interior column \<open>j\<close> is
  \<open>\<Phi>((z + half_step) / sigma) - \<Phi>((z - half_step) / sigma)\<close> with \<open>z = x[j] - rho x[i]\<close>, and
  \<open>\<Phi>(v) = 0.5 erfc(- v / \<surd>2)\<close>.
\<close>

theorem tauchen_closed_form:
  assumes "tauchen erfc rho sigma_u b m n = Returns mc"
    and "tauchen_x rho sigma_u m n = Inr x"
    and "i < nat n"
  shows "(let half_step = tauchen_half_step rho sigma_u m n; Phi = std_norm_cdf erfc in
           P mc ! i ! 0 = Phi ((x ! 0 - rho * x ! i + half_step) / sigma_u) \<and>
           P mc ! i ! (nat n - 1) = 1 - Phi ((x ! (nat n - 1) - rho * x ! i - half_step) / sigma_u) \<and>
           (\<forall>j. 1 \<le> j \<and> j < nat n - 1 \<longrightarrow>
              (let z = x ! j - rho * x ! i in
                 P mc ! i ! j = Phi ((z + half_step) / sigma_u) - Phi ((z - half_step) / sigma_u))) \<and>
           (\<forall>v. Phi v = 0.5 * erfc (- v / sqrt 2)))"
proof -
  have n1: "n \<noteq> 1" using assms(1) by (rule tauchen_ReturnsE)
  then have n2: "2 \<le> nat n" using assms(3) by linarith
  have ent: "\<And>j. j < nat n \<Longrightarrow> P mc ! i ! j =
      tauchen_entry erfc x (nat n) rho sigma_u (tauchen_half_step rho sigma_u m n) i j"
    using tauchen_Returns_entries[OF assms(1,2)] assms(3) by blast
  have a: "P mc ! i ! 0 = std_norm_cdf erfc ((x ! 0 - rho * x ! i + tauchen_half_step rho sigma_u m n) / sigma_u)"
    using ent[of 0] n2 by (simp add: tauchen_entry_def)
  have b: "P mc ! i ! (nat n - 1) =
      1 - std_norm_cdf erfc ((x ! (nat n - 1) - rho * x ! i - tauchen_half_step rho sigma_u m n) / sigma_u)"
    using ent[of "nat n - 1"] n2 by (simp add: tauchen_entry_def)
  have c: "P mc ! i ! j =
      std_norm_cdf erfc ((x ! j - rho * x ! i + tauchen_half_step rho sigma_u m n) / sigma_u) -
      std_norm_cdf erfc ((x ! j - rho * x ! i - tauchen_half_step rho sigma_u m n) / sigma_u)"
    if "1 \<le> j" "j < nat n - 1" for j
    using ent[of j] that by (simp add: tauchen_entry_def)
  show ?thesis
    unfolding Let_def using a b c by (simp add: std_norm_cdf_def)
qed

text \<open>
  The statement of C2 at \<open>rho = 0\<close>, \<open>sigma_u = 1\<close>, \<open>m = 3\<close>, \<open>n = 3\<close>, row \<open>i = 1\<close>: the grid is
  \<open>[-3, 0, 3]\<close> and the half step is \<open>3/2\<close>.
\<close>

theorem tauchen_closed_form_witness:
  "tauchen_x 0 1 3 3 = Inr [- 3, 0, 3] \<and> (1::nat) < nat 3 \<and>
   (\<exists>mc. tauchen erfc_sample 0 1 0 3 3 = Returns mc \<and>
      P mc ! 1 ! 0 = std_norm_cdf erfc_sample (- 3 / 2) \<and>
      P mc ! 1 ! 1 = std_norm_cdf erfc_sample (3 / 2) - std_norm_cdf erfc_sample (- 3 / 2) \<and>
      P mc ! 1 ! 2 = 1 - std_norm_cdf erfc_sample (3 / 2))"
proof -
  obtain mc where mc: "tauchen erfc_sample 0 1 0 3 3 = Returns mc"
    using tauchen_valid_Returns[of 3 0 1 erfc_sample 0 3] by auto
  have i: "(1::nat) < nat 3" by simp
  from tauchen_closed_form[OF mc sample_tauchen_grid(1) i]
  have "P mc ! 1 ! 0 = std_norm_cdf erfc_sample (- 3 / 2) \<and>
      P mc ! 1 ! 1 = std_norm_cdf erfc_sample (3 / 2) - std_norm_cdf erfc_sample (- 3 / 2) \<and>
      P mc ! 1 ! 2 = 1 - std_norm_cdf erfc_sample (3 / 2)"
    by (simp add: Let_def sample_tauchen_grid(2))
  then show ?thesis using mc sample_tauchen_grid(1) i by blast
qed

text \<open>
  Claim C3. With all arguments equal, the outcome of \<^verbatim>\<open>discrete_var\<close> is the same from any two
  states of the generator: \<^verbatim>\<open>_run_sim\<close> seeds the generator before its first draw. A returned
  matrix and state space are the pruned and normalized counts, and the kept rows, of a run of
  \<^verbatim>\<open>_run_sim\<close>. A run that returns has started at the first index of least squared norm and
  is the loop of steps from there. Every step moves to the point \<open>A x0 + C z\<close> and sets its index
  to the first one at which the squared distance to that point is least: of the rows of \<open>S\<close>
  at the same least distance, it is the one of lowest index.
\<close>

theorem discrete_var_deterministic:
  "fst (discrete_var env A Omega grid_sizes std_devs seed sim_length burn_in row_major return_sim g1) =
   fst (discrete_var env A Omega grid_sizes std_devs seed sim_length burn_in row_major return_sim g2) \<and>
   (discrete_var env A Omega grid_sizes std_devs seed sim_length burn_in row_major return_sim g1
      = (Returns r, g1') \<longrightarrow>
      (\<exists>S' n Pi1' Xvec1'.
         run_sim env A (sqrtm env Omega) (zeros n n) (zeros (length A) (nat sim_length)) S'
           sim_length burn_in seed = (Inr (Pi1', Xvec1'), g1') \<and>
         res_Pi r = normalize (prune Pi1') \<and>
         res_S r = map (\<lambda>i. S' ! i) (kept_states Pi1'))) \<and>
   (run_sim env A C Pi0 Xvec0 S sim_length burn_in seed = (Inr (Pi1, Xvec1), g') \<longrightarrow>
      (\<exists>i0. first_minimum (map (\<lambda>row. sum_list (map (\<lambda>s. s\<^sup>2) row)) S) i0 \<and>
         (let fin = fold (sim_step (rng_randn env) A C S burn_in) [0..<nat (sim_length + burn_in)]
                      \<lparr>st_x0 = replicate (length A) 0, st_ind_i = i0, st_Pi = Pi0,
                        st_Xvec = Xvec0, st_gen = rng_seed env seed\<rparr>
          in Pi1 = st_Pi fin \<and> Xvec1 = st_Xvec fin \<and> g' = st_gen fin))) \<and>
   (S \<noteq> [] \<longrightarrow>
      (let st' = sim_step randn A C S burn_in t st
       in st_x0 st' = vadd (matvec A (st_x0 st))
                           (matvec C (fst (randn_vec randn (length A) (st_gen st)))) \<and>
          first_minimum (sq_dists S (st_x0 st')) (st_ind_i st')))"
proof (intro conjI impI)
  show "fst (discrete_var env A Omega grid_sizes std_devs seed sim_length burn_in row_major return_sim g1) =
   fst (discrete_var env A Omega grid_sizes std_devs seed sim_length burn_in row_major return_sim g2)"
    by (rule discrete_var_fst)
next
  assume "discrete_var env A Omega grid_sizes std_devs seed sim_length burn_in row_major return_sim g1
      = (Returns r, g1')"
  then obtain S' Pi1' Xvec1' n where
    run: "run_sim env A (sqrtm env Omega) (zeros (nat n) (nat n)) (zeros (length A) (nat sim_length)) S'
       sim_length burn_in seed = (Inr (Pi1', Xvec1'), g1')"
    and r: "r = \<lparr>res_Pi = normalize (prune Pi1'), res_S = map (\<lambda>i. S' ! i) (kept_states Pi1'),
          res_Xvec = (if return_sim then Some Xvec1' else None)\<rparr>"
    by (rule discrete_var_ReturnsE)
  have "res_Pi r = normalize (prune Pi1')" "res_S r = map (\<lambda>i. S' ! i) (kept_states Pi1')"
    using r by simp_all
  with run show "\<exists>S' n Pi1' Xvec1'.
         run_sim env A (sqrtm env Omega) (zeros n n) (zeros (length A) (nat sim_length)) S'
           sim_length burn_in seed = (Inr (Pi1', Xvec1'), g1') \<and>
         res_Pi r = normalize (prune Pi1') \<and>
         res_S r = map (\<lambda>i. S' ! i) (kept_states Pi1')"
    by blast
next
  assume "run_sim env A C Pi0 Xvec0 S sim_length burn_in seed = (Inr (Pi1, Xvec1), g')"
  from run_sim_unfold[OF this] show "\<exists>i0. first_minimum (map (\<lambda>row. sum_list (map (\<lambda>s. s\<^sup>2) row)) S) i0 \<and>
         (let fin = fold (sim_step (rng_randn env) A C S burn_in) [0..<nat (sim_length + burn_in)]
                      \<lparr>st_x0 = replicate (length A) 0, st_ind_i = i0, st_Pi = Pi0,
                        st_Xvec = Xvec0, st_gen = rng_seed env seed\<rparr>
          in Pi1 = st_Pi fin \<and> Xvec1 = st_Xvec fin \<and> g' = st_gen fin)"
    unfolding Let_def using argmin_first_minimum by blast
next
  assume "S \<noteq> []"
  then show "let st' = sim_step randn A C S burn_in t st
       in st_x0 st' = vadd (matvec A (st_x0 st))
                           (matvec C (fst (randn_vec randn (length A) (st_gen st)))) \<and>
          first_minimum (sq_dists S (st_x0 st')) (st_ind_i st')"
    unfolding Let_def using sim_step_x0 sim_step_first_minimum by blast
qed

text \<open>
  The statement of C3 on the sample collaborators, from the generator states 5 and 7, and for
  a step over the state space \<open>[[1], [3]]\<close> that moves to the point 2, as far from row 0 as
  from row 1: the step picks index 0.
\<close>

theorem discrete_var_deterministic_witness:
  "fst (discrete_var sample_env [[0]] [[1]] (Some [3]) 2 0 2 0 True True 5) =
   fst (discrete_var sample_env [[0]] [[1]] (Some [3]) 2 0 2 0 True True 7) \<and>
   discrete_var sample_env [[0]] [[1]] (Some [3]) 2 0 2 0 True True 5 =
     (Returns \<lparr>res_Pi = [[NaN]], res_S = [[- 2]], res_Xvec = Some [[0, - 2]]\<rparr>, 2) \<and>
   run_sim sample_env [[0]] [[1]] (zeros 3 3) (zeros 1 2) [[- 2], [0], [2]] 2 0 0
     = (Inr ([[0, 0, 0], [0, 0, 0], [1, 0, 0]], [[0, - 2]]), 2) \<and>
   [[1], [3 :: real]] \<noteq> [] \<and>
   sq_dists [[1], [3]] [2] = [1, 1] \<and>
   st_x0 (sim_step (rng_randn sample_env) [[0]] [[1]] [[1], [3]] 0 0
     \<lparr>st_x0 = [0], st_ind_i = Suc 0, st_Pi = [[0, 0], [0, 0]], st_Xvec = [[0, 0]], st_gen = 0\<rparr>) = [2] \<and>
   first_minimum [1, 1] 0 \<and>
   st_ind_i (sim_step (rng_randn sample_env) [[0]] [[1]] [[1], [3]] 0 0
     \<lparr>st_x0 = [0], st_ind_i = Suc 0, st_Pi = [[0, 0], [0, 0]], st_Xvec = [[0, 0]], st_gen = 0\<rparr>) = 0"
  using discrete_var_deterministic[where env=sample_env and A="[[0]]" and Omega="[[1]]"
      and grid_sizes="Some [3]" and std_devs=2 and seed=0 and sim_length=2 and burn_in=0
      and row_major=True and return_sim=True and ?g1.0=5 and ?g2.0=7
      and S="[[1], [3]]" and randn="rng_randn sample_env" and C="[[1]]" and t=0
      and st="\<lparr>st_x0 = [0], st_ind_i = Suc 0, st_Pi = [[0, 0], [0, 0]], st_Xvec = [[0, 0]], st_gen = 0\<rparr>"]
    sample_run[of True 5] sample_run_sim
  by (simp add: sample_tie_step Let_def sample_randn matvec_def vadd_def del: randn_vec.simps)

text \<open>
  Claim C4. For every non-empty sequence of strictly increasing grids, \<^verbatim>\<open>cartesian_product\<close>
  returns in both modes; the column-major output is a permutation of the row-major one; in
  both modes the number of rows is the product of the grid sizes, no row occurs twice, and
  the rows are exactly the combinations of one value per grid.
\<close>

theorem cartesian_product_orders_agree:
  assumes "arrays \<noteq> []" and "\<forall>v \<in> set arrays. sorted_wrt (<) v"
  shows "\<exists>Sr Sc. cartesian_product arrays True = Inr Sr \<and>
                 cartesian_product arrays False = Inr Sc \<and>
                 mset Sc = mset Sr \<and>
                 length Sr = prod_list (map length arrays) \<and>
                 length Sc = prod_list (map length arrays) \<and>
                 distinct Sr \<and> distinct Sc \<and>
                 set Sr = combinations arrays \<and> set Sc = combinations arrays"
proof -
  have sd: "\<forall>v \<in> set arrays. sorted v \<and> distinct v"
    using assms(2) by (simp add: strict_sorted_iff)
  have r: "cartesian_product arrays True = Inr (row_major_rows arrays)"
    and c: "cartesian_product arrays False = Inr (col_major_rows arrays)"
    using assms(1) by (simp_all add: cartesian_product_def)
  have dr: "distinct (row_major_rows arrays)"
    by (rule distinct_row_major_rows) (use sd in blast)
  have dc: "distinct (col_major_rows arrays)"
    by (rule distinct_col_major_rows[OF sd])
  have sr: "set (row_major_rows arrays) = combinations arrays"
    by (rule set_row_major_rows)
  have sc: "set (col_major_rows arrays) = combinations arrays"
    by (rule set_col_major_rows) (use sd in blast)
  have "mset (col_major_rows arrays) = mset (row_major_rows arrays)"
    using set_eq_iff_mset_eq_distinct[OF dc dr] sr sc by simp
  then show ?thesis
    using r c dr dc sr sc length_row_major_rows[of arrays] length_col_major_rows[of arrays]
    by blast
qed

text \<open>
  The statement of C4 for the grids \<open>[1, 2]\<close> and \<open>[10, 20, 30]\<close>.
\<close>

theorem cartesian_product_orders_agree_witness:
  "[[1, 2], [10, 20, 30 :: real]] \<noteq> [] \<and>
   sorted_wrt (<) [1, 2 :: real] \<and> sorted_wrt (<) [10, 20, 30 :: real] \<and>
   (\<exists>Sr Sc. cartesian_product [[1, 2], [10, 20, 30]] True = Inr Sr \<and>
            cartesian_product [[1, 2], [10, 20, 30]] False = Inr Sc \<and>
            mset Sc = mset Sr \<and>
            length Sr = prod_list (map length [[1, 2], [10, 20, 30 :: real]]) \<and>
            length Sc = prod_list (map length [[1, 2], [10, 20, 30 :: real]]) \<and>
            distinct Sr \<and> distinct Sc \<and>
            set Sr = combinations [[1, 2], [10, 20, 30]] \<and>
            set Sc = combinations [[1, 2], [10, 20, 30]])"
proof -
  have a: "[[1, 2], [10, 20, 30 :: real]] \<noteq> []" by simp
  have b: "\<forall>v \<in> set [[1, 2], [10, 20, 30 :: real]]. sorted_wrt (<) v" by simp
  have c: "sorted_wrt (<) [1, 2 :: real]" "sorted_wrt (<) [10, 20, 30 :: real]" by simp_all
  show ?thesis using a c cartesian_product_orders_agree[OF a b] by blast
qed

text \<open>
  Claim C5. An iteration of the simulation loop changes the counts only when \<open>t > burn_in\<close>,
  and then adds one to the entry of the previous and the current quantized index. Starting
  from zero counts on \<open>n\<close> states, with \<open>burn_in \<ge> 0\<close> and \<open>sim_length \<ge> 1\<close>, the counts at the end
  add up to \<open>sim_length - 1\<close>: one more sample than the burn-in is skipped.
\<close>

theorem counting_starts_after_burn_in:
  assumes "run_sim env A C (zeros n n) Xvec0 S sim_length burn_in seed = (Inr (Pi1, Xvec1), g')"
    and "length S = n" and "0 \<le> burn_in" and "1 \<le> sim_length"
  shows "total Pi1 = real_of_int (sim_length - 1) \<and>
         (\<forall>t st. st_Pi (sim_step (rng_randn env) A C S burn_in t st) =
            (if burn_in < int t
             then bump (st_Pi st) (st_ind_i st)
                       (st_ind_i (sim_step (rng_randn env) A C S burn_in t st))
             else st_Pi st))"
proof -
  have "total Pi1 = real (length (filter (\<lambda>t. burn_in < int t) [0..<nat (sim_length + burn_in)]))"
    by (rule run_sim_counts(3)[OF assms(1,2)])
  also have "\<dots> = real (nat (sim_length + burn_in) - Suc (nat burn_in))"
    by (simp only: counted_steps[OF assms(3)])
  also have "nat (sim_length + burn_in) - Suc (nat burn_in) = nat (sim_length - 1)"
    using assms(3,4) by linarith
  also have "real (nat (sim_length - 1)) = real_of_int (sim_length - 1)"
    using assms(4) by simp
  finally have "total Pi1 = real_of_int (sim_length - 1)" .
  then show ?thesis using sim_step_Pi[of "rng_randn env" A C S burn_in] by blast
qed

text \<open>
  The statement of C5 on the sample collaborators, with \<open>sim_length = 2\<close> and \<open>burn_in = 0\<close>: one
  pair is counted.
\<close>

theorem counting_starts_after_burn_in_witness:
  "run_sim sample_env [[0]] [[1]] (zeros 3 3) (zeros 1 2) [[- 2], [0], [2]] 2 0 0
     = (Inr ([[0, 0, 0], [0, 0, 0], [1, 0, 0]], [[0, - 2]]), 2) \<and>
   length [[- 2], [0], [2::real]] = 3 \<and> (0::int) \<le> 0 \<and> (1::int) \<le> 2 \<and>
   total [[0, 0, 0], [0, 0, 0], [1, 0, 0]] = real_of_int (2 - 1)"
proof -
  have l: "length [[- 2], [0], [2::real]] = 3" by simp
  have b: "(0::int) \<le> 0" "(1::int) \<le> 2" by simp_all
  from counting_starts_after_burn_in[OF sample_run_sim l b] sample_run_sim l b
  show ?thesis by blast
qed

text \<open>
  Claim C6 says that a surviving state with a zero row of counts is reported as an error. On
  the sample collaborators the only counted step goes from the grid point 2 to the grid point
  \<open>-2\<close>; the state \<open>-2\<close> survives the pruning with the row of counts \<open>[0]\<close>, and
  \<^verbatim>\<open>discrete_var\<close> returns the matrix \<open>[[nan]]\<close>.
\<close>

theorem discrete_var_degenerate_counterexample:
  "run_sim sample_env [[0]] [[1]] (zeros 3 3) (zeros 1 2) [[- 2], [0], [2]] 2 0 0
     = (Inr ([[0, 0, 0], [0, 0, 0], [1, 0, 0]], [[0, - 2]]), 2) \<and>
   prune [[0, 0, 0], [0, 0, 0], [1, 0, 0]] = [[0]] \<and>
   discrete_var sample_env [[0]] [[1]] (Some [3]) 2 0 2 0 True False 0 =
     (Returns \<lparr>res_Pi = [[NaN]], res_S = [[- 2]], res_Xvec = None\<rparr>, 2)"
proof -
  have p: "prune [[0, 0, 0], [0, 0, 0], [1, 0, 0]] = [[0]]"
    unfolding prune_def Let_def sample_finish(1) by simp
  have r: "discrete_var sample_env [[0]] [[1]] (Some [3]) 2 0 2 0 True False 0 =
     (Returns \<lparr>res_Pi = [[NaN]], res_S = [[- 2]], res_Xvec = None\<rparr>, 2)"
    by (simp add: sample_run)
  show ?thesis using p r sample_run_sim by blast
qed

text \<open>
  Claim C6 as amended. \<^verbatim>\<open>discrete_var\<close> has no check of the row sums. Once the solver, the
  grids and the state space are built, no stationary variance is negative and the simulation
  has returned its counts, the call returns: its matrix is the pruned count matrix divided row
  by row, and a surviving row whose counts add up to zero is returned with nan in every entry.
\<close>

theorem zero_row_sum_yields_nan:
  assumes "solve_discrete_lyapunov env A Omega = Inr Sigma'"
    and "\<forall>v \<in> set (np_diagonal Sigma'). 0 \<le> v"
    and "gs = (case grid_sizes of None \<Rightarrow> replicate (length A) 10 | Some l \<Rightarrow> l)"
    and "build_grids (map (\<lambda>s. std_devs * s) (map sqrt (np_diagonal Sigma'))) gs [0..<length A] = Inr V"
    and "cartesian_product V row_major = Inr S"
    and "0 \<le> prod_list gs" and "0 \<le> sim_length"
    and "run_sim env A (sqrtm env Omega) (zeros (nat (prod_list gs)) (nat (prod_list gs)))
           (zeros (length A) (nat sim_length)) S sim_length burn_in seed = (Inr (Pi1, Xvec1), g')"
  shows "discrete_var env A Omega grid_sizes std_devs seed sim_length burn_in row_major return_sim g =
           (Returns \<lparr>res_Pi = normalize (prune Pi1), res_S = map (\<lambda>i. S ! i) (kept_states Pi1),
                      res_Xvec = (if return_sim then Some Xvec1 else None)\<rparr>, g') \<and>
         (\<forall>i<length (prune Pi1).
            sum_list (prune Pi1 ! i) = 0 \<longrightarrow>
            normalize (prune Pi1) ! i = replicate (length (prune Pi1 ! i)) NaN)"
proof -
  have v: "\<not> (\<exists>v \<in> set (np_diagonal Sigma'). v < 0)" using assms(2) by (simp add: not_less)
  have n: "\<not> (prod_list gs < 0 \<or> sim_length < 0)" using assms(6,7) by simp
  have ret: "discrete_var env A Omega grid_sizes std_devs seed sim_length burn_in row_major return_sim g =
           (Returns \<lparr>res_Pi = normalize (prune Pi1), res_S = map (\<lambda>i. S ! i) (kept_states Pi1),
                      res_Xvec = (if return_sim then Some Xvec1 else None)\<rparr>, g')"
    unfolding discrete_var_def Let_def assms(3)[symmetric] assms(1) sum.case assms(4) assms(5)
      if_not_P[OF n] assms(8) prod.case if_not_P[OF v] ..
  have sh: "shaped (nat (prod_list gs)) (nat (prod_list gs)) Pi1" and nn: "nonneg_entries Pi1"
    using run_sim_shape_nonneg[OF assms(8)] by blast+
  have "normalize (prune Pi1) ! i = replicate (length (prune Pi1 ! i)) NaN"
    if "i < length (prune Pi1)" "sum_list (prune Pi1 ! i) = 0" for i
    by (rule normalize_zero_row[OF that(1) prune_nonneg[OF sh nn that(1)] that(2)])
  then show ?thesis using ret by blast
qed

text \<open>
  The amended statement of C6 on the sample collaborators: the only counted step goes from
  the grid point 2 to the grid point \<open>-2\<close>, whose row of counts is \<open>[0]\<close> after the pruning.
\<close>

theorem zero_row_sum_yields_nan_witness:
  "solve_discrete_lyapunov sample_env [[0]] [[1]] = Inr [[1]] \<and>
   cartesian_product [[- 2, 0, 2]] True = Inr [[- 2], [0], [2]] \<and>
   run_sim sample_env [[0]] [[1]] (zeros 3 3) (zeros 1 2) [[- 2], [0], [2]] 2 0 0
     = (Inr ([[0, 0, 0], [0, 0, 0], [1, 0, 0]], [[0, - 2]]), 2) \<and>
   discrete_var sample_env [[0]] [[1]] (Some [3]) 2 0 2 0 True False 0 =
     (Returns \<lparr>res_Pi = normalize (prune [[0, 0, 0], [0, 0, 0], [1, 0, 0]]),
                res_S = map (\<lambda>i. [[- 2], [0], [2]] ! i) (kept_states [[0, 0, 0], [0, 0, 0], [1, 0, 0]]),
                res_Xvec = None\<rparr>, 2) \<and>
   prune [[0, 0, 0], [0, 0, 0], [1, 0, 0]] = [[0]] \<and>
   normalize (prune [[0, 0, 0], [0, 0, 0], [1, 0, 0]]) ! 0 = [NaN]"
proof -
  have h2: "\<forall>v \<in> set (np_diagonal [[1]]). 0 \<le> v" by (simp add: np_diagonal_def)
  have h3: "[3] = (case Some [3] of None \<Rightarrow> replicate (length [[0::real]]) 10 | Some l \<Rightarrow> l)" by simp
  have h4: "build_grids (map (\<lambda>s. 2 * s) (map sqrt (np_diagonal [[1]]))) [3] [0..<length [[0::real]]]
              = Inr [[- 2, 0, 2]]"
    using sample_grids by (simp add: np_diagonal_def)
  have h6: "0 \<le> prod_list [3::int]" "0 \<le> (2::int)" by simp_all
  have c: "sqrtm sample_env [[1]] = [[1]]" by (simp add: sample_env_def)
  have h8: "run_sim sample_env [[0]] (sqrtm sample_env [[1]]) (zeros (nat (prod_list [3])) (nat (prod_list [3])))
           (zeros (length [[0::real]]) (nat 2)) [[- 2], [0], [2]] 2 0 0
         = (Inr ([[0, 0, 0], [0, 0, 0], [1, 0, 0]], [[0, - 2]]), 2)"
    using sample_run_sim by (simp add: c)
  have p: "prune [[0, 0, 0], [0, 0, 0], [1, 0, 0]] = [[0]]"
    unfolding prune_def Let_def sample_finish(1) by simp
  from zero_row_sum_yields_nan[OF sample_solve h2 h3 h4 sample_states h6 h8,
      where return_sim=False and g=0]
  show ?thesis using sample_solve sample_states sample_run_sim p by simp
qed

text \<open>
  Claim C7 says that for every \<open>rho\<close> with \<open>\<bar>rho\<bar> \<ge> 1\<close> both \<^verbatim>\<open>rouwenhorst\<close> and \<^verbatim>\<open>tauchen\<close> raise an
  explicit error naming the violated precondition. Neither function checks \<open>rho\<close>. At
  \<open>rho = 1\<close>, with \<open>sigma = 1\<close>, both raise ZeroDivisionError, which comes from the division of
  Python floats by \<open>1 - rho\<^sup>2\<close> and names no precondition.
\<close>

theorem rho_1_counterexample:
  "\<bar>1 :: real\<bar> \<ge> 1 \<and>
   rouwenhorst 3 0 1 1 = Inl ZeroDivisionError \<and>
   tauchen erfc_sample 1 1 0 3 7 = Raises ZeroDivisionError \<and>
   \<not> explicitly_raised ZeroDivisionError"
  by (simp add: rouwenhorst_def tauchen_def explicitly_raised_def)

text \<open>
  Claim C7 as amended. The arguments are Python floats, and the sizes of \<open>rho\<close> and \<open>sigma\<close> are
  such that no square and no quotient overflows or underflows to zero. At \<open>\<bar>rho\<bar> = 1\<close>
  \<^verbatim>\<open>rouwenhorst\<close> and \<^verbatim>\<open>tauchen\<close> raise ZeroDivisionError; at \<open>\<bar>rho\<bar> > 1\<close> \<^verbatim>\<open>rouwenhorst\<close> raises the
  ValueError of \<^verbatim>\<open>math.sqrt\<close>. Neither error is raised by a \<^verbatim>\<open>raise\<close> statement of the module.
  Nothing is said of \<^verbatim>\<open>tauchen\<close> at \<open>\<bar>rho\<bar> > 1\<close>, where \<^verbatim>\<open>np.sqrt\<close> warns and the outcome depends
  on the constructor of the chain.
\<close>

theorem rho_out_of_range:
  assumes "1 \<le> \<bar>rho\<bar>" and "\<bar>rho\<bar> \<le> 10 ^ 75"
    and "1 / 10 ^ 75 \<le> \<bar>sigma\<bar>" and "\<bar>sigma\<bar> \<le> 10 ^ 75"
  shows "rouwenhorst n ybar sigma rho =
           Inl (if \<bar>rho\<bar> = 1 then ZeroDivisionError else MathDomainError) \<and>
         (\<bar>rho\<bar> = 1 \<longrightarrow> tauchen erfc rho sigma b m n' = Raises ZeroDivisionError) \<and>
         \<not> explicitly_raised ZeroDivisionError \<and> \<not> explicitly_raised MathDomainError"
proof -
  have "(0::real) < 1 / 10 ^ 75" by simp
  then have "sigma \<noteq> 0" using assms(3) by auto
  then have s: "0 < sigma\<^sup>2" by simp
  have r1: "1 - rho\<^sup>2 = 0 \<longleftrightarrow> \<bar>rho\<bar> = 1"
    using abs_square_eq_1[of rho] by auto
  have neg: "sigma\<^sup>2 / (1 - rho\<^sup>2) < 0" if "\<bar>rho\<bar> \<noteq> 1"
  proof -
    have "\<not> \<bar>rho\<bar> \<le> 1" using that assms(1) by linarith
    then have "1 < rho\<^sup>2" using abs_square_le_1[of rho] by linarith
    then have "1 - rho\<^sup>2 < 0" by simp
    then show ?thesis using s by (rule divide_pos_neg[rotated])
  qed
  have a: "rouwenhorst n ybar sigma rho =
           Inl (if \<bar>rho\<bar> = 1 then ZeroDivisionError else MathDomainError)"
  proof (cases "\<bar>rho\<bar> = 1")
    case True
    then have "1 - rho\<^sup>2 = 0" using r1 by simp
    then show ?thesis unfolding rouwenhorst_def using True by simp
  next
    case False
    then have "1 - rho\<^sup>2 \<noteq> 0" using r1 by simp
    then show ?thesis unfolding rouwenhorst_def using False neg[OF False] by simp
  qed
  have b: "tauchen erfc rho sigma b m n' = Raises ZeroDivisionError" if "\<bar>rho\<bar> = 1"
  proof -
    have "1 - rho\<^sup>2 = 0" using that r1 by simp
    then show ?thesis unfolding tauchen_def by simp
  qed
  show ?thesis using a b by (simp add: explicitly_raised_def)
qed

text \<open>
  The amended statement of C7 at \<open>rho = 2\<close> and at \<open>rho = -1\<close>, with \<open>sigma = 1\<close>.
\<close>

theorem rho_out_of_range_witness:
  "(1::real) \<le> \<bar>2\<bar> \<and> \<bar>2::real\<bar> \<le> 10 ^ 75 \<and> (1::real) / 10 ^ 75 \<le> \<bar>1\<bar> \<and> \<bar>1::real\<bar> \<le> 10 ^ 75 \<and>
   (1::real) \<le> \<bar>- 1\<bar> \<and> \<bar>- 1 :: real\<bar> \<le> 10 ^ 75 \<and>
   rouwenhorst 3 0 1 2 = Inl MathDomainError \<and>
   rouwenhorst 3 0 1 (- 1) = Inl ZeroDivisionError \<and>
   tauchen erfc_sample (- 1) 1 0 3 7 = Raises ZeroDivisionError"
  using rho_out_of_range[of 2 1 3 0 erfc_sample 0 3 7]
    rho_out_of_range[of "- 1" 1 3 0 erfc_sample 0 3 7]
  by simp

text \<open>
  Claim C8 says that no entry of the returned trace is left at its initial value. With
  \<open>sim_length = 2\<close> and \<open>burn_in = 0\<close> on the sample collaborators the two simulated values are
  2 and \<open>-2\<close>, the first draw being 2; the trace returned is \<open>[0, -2]\<close>: its first column still
  holds the zero of \<^verbatim>\<open>np.zeros\<close>, since the column \<open>t - burn_in\<close> is written only for
  \<open>t > burn_in\<close>.
\<close>

theorem discrete_var_trace_first_column:
  "fst (discrete_var sample_env [[0]] [[1]] (Some [3]) 2 0 2 0 True True 0) =
     Returns \<lparr>res_Pi = [[NaN]], res_S = [[- 2]], res_Xvec = Some [[0, - 2]]\<rparr> \<and>
   fst (randn_vec (rng_randn sample_env) 1 (rng_seed sample_env 0)) = [2]"
proof -
  have s: "rng_seed sample_env 0 = 0" by (simp add: sample_env_def)
  have "fst (randn_vec (rng_randn sample_env) 1 (rng_seed sample_env 0)) = [2]"
    unfolding s One_nat_def sample_randn by simp
  then show ?thesis by (simp add: sample_run)
qed

text \<open>
  Claim C9 says that a call of \<^verbatim>\<open>discrete_var\<close> leaves the process-wide state of the random
  generator unchanged. A call on the sample collaborators, made when the generator is in state
  5, leaves it in state 2: seeded with 0 and advanced by two draws.
\<close>

theorem discrete_var_generator_counterexample:
  "snd (discrete_var sample_env [[0]] [[1]] (Some [3]) 2 0 2 0 True False 5) = 2 \<and> (2::nat) \<noteq> 5"
  by (simp add: sample_run)

text \<open>
  Claim C9 as amended. \<^verbatim>\<open>_run_sim\<close> seeds the generator that compiled code shares within the
  process and draws from it. After a call of \<^verbatim>\<open>discrete_var\<close> that returns, the generator is in
  the state reached from the seed by \<open>m (sim_length + burn_in)\<close> draws, whatever its state was
  before the call.
\<close>

theorem discrete_var_reseeds_generator:
  assumes "discrete_var env A Omega grid_sizes std_devs seed sim_length burn_in row_major return_sim g
           = (Returns r, g')"
  shows "g' = ((\<lambda>a. snd (rng_randn env a)) ^^ (length A * nat (sim_length + burn_in)))
                (rng_seed env seed)"
  using assms by (rule discrete_var_ReturnsE) (rule run_sim_gen)

text \<open>
  The amended statement of C9 on the sample collaborators, with seed 0, one dimension and two
  steps.
\<close>

theorem discrete_var_reseeds_generator_witness:
  "discrete_var sample_env [[0]] [[1]] (Some [3]) 2 0 2 0 True False 5 =
     (Returns \<lparr>res_Pi = [[NaN]], res_S = [[- 2]], res_Xvec = None\<rparr>, 2) \<and>
   (2::nat) = ((\<lambda>a. snd (rng_randn sample_env a)) ^^ (length [[0::real]] * nat (2 + 0)))
                (rng_seed sample_env 0)"
proof -
  have r: "discrete_var sample_env [[0]] [[1]] (Some [3]) 2 0 2 0 True False 5 =
     (Returns \<lparr>res_Pi = [[NaN]], res_S = [[- 2]], res_Xvec = None\<rparr>, 2)"
    by (simp add: sample_run)
  from discrete_var_reseeds_generator[OF r] r show ?thesis by blast
qed

text \<open>
  Claim C10 says that \<open>theta[i, j] = theta[n - 1 - i, n - 1 - j]\<close>, with no tolerance. On
  doubles, at \<open>n = 4\<close> and \<open>rho = 0.2\<close> (the double \<open>3602879701896397 / 2\<^sup>5\<^sup>4\<close>), the entry
  \<open>theta[1, 2]\<close> is \<open>0.352\<close> and the entry \<open>theta[2, 1]\<close> is \<open>0.35200000000000004\<close>, one unit in
  the last place above: the same four products are summed in opposite orders.
\<close>

theorem rouwenhorst_float_asymmetry_counterexample:
  "(2::int) \<le> 4 \<and> \<bar>3602879701896397 / 2 ^ 54 :: real\<bar> < 1 \<and>
   rouwenhorst_theta_f64 4 (3602879701896397 / 2 ^ 54) =
     Inr [[7782220156096217 / 2 ^ 55, 972777519512027 / 2 ^ 51, 1297036692682703 / 2 ^ 52, 4611686018427389 / 2 ^ 56],
      [5188146770730811 / 2 ^ 55, 3674937295934325 / 2 ^ 53, 3170534137668829 / 2 ^ 53, 3458764513820541 / 2 ^ 55],
      [3458764513820541 / 2 ^ 55, 6341068275337659 / 2 ^ 54, 3674937295934325 / 2 ^ 53, 5188146770730811 / 2 ^ 55],
      [4611686018427389 / 2 ^ 56, 1297036692682703 / 2 ^ 52, 972777519512027 / 2 ^ 51, 7782220156096217 / 2 ^ 55]] \<and>
   projr (rouwenhorst_theta_f64 4 (3602879701896397 / 2 ^ 54)) ! 1 ! 2 = 3170534137668829 / 2 ^ 53 \<and>
   projr (rouwenhorst_theta_f64 4 (3602879701896397 / 2 ^ 54)) ! 2 ! 1 = 6341068275337659 / 2 ^ 54 \<and>
   \<not> centrally_symmetric 4 (projr (rouwenhorst_theta_f64 4 (3602879701896397 / 2 ^ 54)))"
proof -
  let ?T = "projr (rouwenhorst_theta_f64 4 (3602879701896397 / 2 ^ 54))"
  have a: "?T ! 1 ! 2 = 3170534137668829 / 2 ^ 53"
    unfolding sample_theta_f64 by simp
  have b: "?T ! 2 ! 1 = 6341068275337659 / 2 ^ 54"
    unfolding sample_theta_f64 by simp
  have "\<not> centrally_symmetric 4 ?T"
  proof
    assume "centrally_symmetric 4 ?T"
    then have "?T ! 1 ! 2 = ?T ! (4 - 1 - 1) ! (4 - 1 - 2)"
      by (rule centrally_symmetricD) simp_all
    moreover have "(4::nat) - 1 - 1 = 2" "(4::nat) - 1 - 2 = 1" by simp_all
    ultimately have "?T ! 1 ! 2 = ?T ! 2 ! 1" by simp
    then show False unfolding a b by simp
  qed
  then show ?thesis using sample_theta_f64 a b by simp
qed

text \<open>
  Claim C10 as amended. For every \<open>n \<ge> 2\<close> and every \<open>rho\<close> with \<open>\<bar>rho\<bar> < 1\<close>, \<^verbatim>\<open>rouwenhorst\<close> returns
  a chain whose \<open>n \<times> n\<close> matrix is centrally symmetric in exact arithmetic (the first part,
  with floating-point numbers read as real numbers). On doubles (the second part) the
  equality is exact for \<open>n = 2\<close> and \<open>n = 3\<close>, where it needs only that the rounded sum is
  commutative; from \<open>n = 4\<close> on it can fail in the last place.
\<close>

theorem rouwenhorst_central_symmetry:
  assumes "2 \<le> n" "\<bar>rho\<bar> < 1"
  shows "(\<exists>mc. rouwenhorst n ybar sigma rho = Inr mc \<and> length (P mc) = nat n \<and>
           centrally_symmetric (nat n) (P mc)) \<and>
         (n \<le> 3 \<longrightarrow>
           (\<exists>T. rouwenhorst_theta_f64 n rho = Inr T \<and> length T = nat n \<and>
                centrally_symmetric (nat n) T))"
proof
  obtain M where M: "row_build_mat n ((1 + rho) / 2) ((1 + rho) / 2) = Inr M"
      "shaped (nat n) (nat n) M" "centrally_symmetric (nat n) M"
    using row_build_mat_symmetric[OF assms(1)] by blast
  obtain bar where "rouwenhorst n ybar sigma rho = Inr \<lparr>P = M, state_values = bar\<rparr>"
    using rouwenhorst_of_row_build_mat[OF assms M(1), where ybar=ybar and sigma=sigma] by blast
  then show "\<exists>mc. rouwenhorst n ybar sigma rho = Inr mc \<and> length (P mc) = nat n \<and>
           centrally_symmetric (nat n) (P mc)"
    using M(2,3) by (simp add: shapedD)
next
  show "n \<le> 3 \<longrightarrow>
           (\<exists>T. rouwenhorst_theta_f64 n rho = Inr T \<and> length T = nat n \<and>
                centrally_symmetric (nat n) T)"
  proof
    assume "n \<le> 3"
    then have "n = 2 \<or> n = 3" using assms(1) by linarith
    from row_build_mat_f64_symmetric[OF this]
    show "\<exists>T. rouwenhorst_theta_f64 n rho = Inr T \<and> length T = nat n \<and>
                centrally_symmetric (nat n) T"
      unfolding rouwenhorst_theta_f64_def Let_def .
  qed
qed

text \<open>
  The amended statement of C10 at \<open>n = 3\<close>, \<open>rho = 1/2\<close>.
\<close>

theorem rouwenhorst_central_symmetry_witness:
  "(2::int) \<le> 3 \<and> \<bar>1 / 2 :: real\<bar> < 1 \<and> (3::int) \<le> 3 \<and>
   (\<exists>mc. rouwenhorst 3 0 1 (1 / 2) = Inr mc \<and> length (P mc) = nat 3 \<and>
          centrally_symmetric (nat 3) (P mc)) \<and>
   (\<exists>T. rouwenhorst_theta_f64 3 (1 / 2) = Inr T \<and> length T = nat 3 \<and>
          centrally_symmetric (nat 3) T)"
  using rouwenhorst_central_symmetry[of 3 "1 / 2" 0 1] by simp

end
